theory Spec2Isabelle
  imports Main "HOL-Library.Word"
begin

section \<open>The soccer-game rendezvous: shared region, semaphores and the three actors\<close>

text \<open>
  The three source files (semSharedMemPlayer.c, semSharedMemGoalie.c and
  semSharedMemReferee.c) are the life cycles of a player, a goalie and the referee.
  All of them work on one shared region \<open>sh\<close> and on one set of System V semaphores.
  The headers (probConst.h, probDataStruct.h, sharedDataSync.h), the semaphore and
  logging libraries and the program that creates the region are not among the sources;
  what the model takes from them is said where it is taken.
\<close>

subsection \<open>Data\<close>

text \<open>
  The state codes are macros of probConst.h. The ones the three files write are
  ARRIVING, LATE, FORMING_TEAM, PLAYING, ENDING_GAME (players, goalies; the referee uses
  ENDING_GAME too) and ARRIVINGR, WAITING_TEAMS, STARTING_GAME, REFEREEING (referee).
  WAITING_TEAM is a state of the problem that no statement of the sources writes.
\<close>

datatype stat =
    ARRIVING | LATE | FORMING_TEAM | WAITING_TEAM | PLAYING | ENDING_GAME
  | ARRIVINGR | WAITING_TEAMS | STARTING_GAME | REFEREEING

text \<open>\<open>sh->fSt.st\<close>: one slot per player, one per goalie, one for the referee.\<close>

record STAT =
  playerStat :: "stat list"
  goalieStat :: "stat list"
  refereeStat :: stat

text \<open>
  \<open>sh->fSt\<close>, the snapshot that \<open>saveState\<close> prints. Its declaration (probDataStruct.h)
  is not among the sources; the counters are taken to be of type \<open>int\<close>, as the local
  variable \<open>team\<close> that receives \<open>teamId\<close> is. Their values are integers, and the one
  place that does arithmetic on them (\<open>constituteTeam\<close>) has no result where a C \<open>int\<close>
  would overflow.
\<close>

record FULL_STAT =
  st :: STAT
  playersFree :: int
  goaliesFree :: int
  teamId :: int

text \<open>
  The compile-time constants of probConst.h, which is not among the sources: they are
  parameters of the model.
\<close>

record probConst =
  NUMPLAYERS :: int
  NUMGOALIES :: int
  NUMTEAMPLAYERS :: int
  NUMTEAMGOALIES :: int

text \<open>The semaphores the three files use, named as the fields of \<open>sh\<close> that hold their index.\<close>

datatype semId = mutex | playersWaitReferee | playersWaitEnd

text \<open>A process is a player or a goalie with the \<open>int id\<close> it was started with, or the referee.\<close>

datatype proc = Player int | Goalie int | Referee

text \<open>
  What a process does to the shared world, recorded in the order it happens: semaphore
  operations and accesses to the variables of the snapshot. \<open>V_fSt\<close> is the whole
  snapshot, which \<open>saveState\<close> reads. A read-modify-write (\<open>teamId++\<close>, \<open>-=\<close>) is recorded
  as a write.
\<close>

datatype var =
    V_playerStat int | V_goalieStat int | V_refereeStat
  | V_playersFree | V_goaliesFree | V_teamId | V_fSt

datatype action = SemDown semId | SemUp semId | Rd var | Wr var

text \<open>
  The places where a process can stand between two atomic steps. A step is a semaphore
  operation, or the statements of a critical section up to and including the
  \<open>semUp\<close> on the mutex. The statements of a critical section are taken as one step
  because the critical sections exclude each other (lemma \<open>mutual_exclusion\<close> below),
  every write to the snapshot happens inside one, and the only access outside (the
  referee's poll of \<open>teamId\<close>) is a single read. \<open>usleep\<close> changes nothing and is
  covered by the interleaving.

  Players and goalies (main, lines 117-122 of the player file):
  arrive = ArriveDown, ArriveCS; constituteTeam = ConstDown, ConstCS;
  waitReferee = WaitRefSem, WaitRefDown, WaitRefCS;
  playUntilEnd = PlayEndSem, PlayEndDown, PlayEndCS.
  Referee (main, lines 116-120): arrive = RArriveDown, RArriveCS;
  waitForTeams = RWaitDown, RWaitCS, RWaitPoll; startGame = RStartDown, RStartCS, RStartUp;
  play = RPlayDown, RPlayCS; endGame = REndDown, REndCS, REndUp.
\<close>

datatype loc =
    ArriveDown | ArriveCS | ConstDown | ConstCS
  | WaitRefSem | WaitRefDown | WaitRefCS
  | PlayEndSem | PlayEndDown | PlayEndCS
  | RArriveDown | RArriveCS | RWaitDown | RWaitCS | RWaitPoll
  | RStartDown | RStartCS | RStartUp | RPlayDown | RPlayCS
  | REndDown | REndCS | REndUp
  | Finished

text \<open>
  The whole system: the snapshot, the values of the semaphores, the log file (one
  snapshot per \<open>saveState\<close>, oldest first), and per process its place and its local
  variable \<open>team\<close> (\<open>ret\<close> in the goalie). \<open>evs\<close> is the history of actions.
\<close>

record config =
  fSt :: FULL_STAT
  sem :: "semId \<Rightarrow> nat"
  logf :: "FULL_STAT list"
  pc :: "proc \<Rightarrow> loc"
  team :: "proc \<Rightarrow> int"
  evs :: "(proc \<times> action) list"

subsection \<open>Primitives\<close>

definition acts :: "proc \<Rightarrow> action list \<Rightarrow> config \<Rightarrow> config" where
  "acts p as c = c\<lparr>evs := evs c @ map (Pair p) as\<rparr>"

text \<open>
  Modelled from the spec: \<open>semDown\<close> and \<open>semUp\<close> are functions of semaphore.c, which is
  not among the sources. Section 4.4 of the specification gives them counting
  semantics: a post increments the counter, a wait blocks until the counter is positive
  and then decrements it. A blocked \<open>semDown\<close> is \<open>None\<close>: the process cannot take the step.
  In this model the two operations never return -1, so the \<open>exit (EXIT_FAILURE)\<close> that
  follows each of them in the sources is never taken.
\<close>

definition semDown :: "proc \<Rightarrow> semId \<Rightarrow> config \<Rightarrow> config option" where
  "semDown p s c =
     (if 0 < sem c s
      then Some (acts p [SemDown s] (c\<lparr>sem := (sem c)(s := sem c s - 1)\<rparr>))
      else None)"

definition semUp :: "proc \<Rightarrow> semId \<Rightarrow> config \<Rightarrow> config" where
  "semUp p s c = acts p [SemUp s] (c\<lparr>sem := (sem c)(s := sem c s + 1)\<rparr>)"

text \<open>
  Modelled from the spec: \<open>saveState\<close> is a function of logging.c, which is not among the
  sources. Section 4.1: it appends one record of the snapshot to the log.
\<close>

definition saveState :: "proc \<Rightarrow> config \<Rightarrow> config" where
  "saveState p c = acts p [Rd V_fSt] (c\<lparr>logf := logf c @ [fSt c]\<rparr>)"

text \<open>
  The write to the process's own slot: \<open>sh->fSt.st.playerStat[id] = v\<close>,
  \<open>sh->fSt.st.goalieStat[id] = v\<close>, \<open>sh->fSt.st.refereeStat = v\<close>. An index outside the
  array has no defined behaviour in C: the result is \<open>None\<close>.
\<close>

definition in_range :: "int \<Rightarrow> 'a list \<Rightarrow> bool" where
  "in_range i xs = (0 \<le> i \<and> i < int (length xs))"

fun setStat :: "proc \<Rightarrow> stat \<Rightarrow> config \<Rightarrow> config option" where
  "setStat (Player i) v c =
     (if in_range i (playerStat (st (fSt c)))
      then Some (acts (Player i) [Wr (V_playerStat i)]
             (c\<lparr>fSt := (fSt c)\<lparr>st := (st (fSt c))\<lparr>playerStat := (playerStat (st (fSt c)))[nat i := v]\<rparr>\<rparr>\<rparr>))
      else None)"
| "setStat (Goalie i) v c =
     (if in_range i (goalieStat (st (fSt c)))
      then Some (acts (Goalie i) [Wr (V_goalieStat i)]
             (c\<lparr>fSt := (fSt c)\<lparr>st := (st (fSt c))\<lparr>goalieStat := (goalieStat (st (fSt c)))[nat i := v]\<rparr>\<rparr>\<rparr>))
      else None)"
| "setStat Referee v c =
     Some (acts Referee [Wr V_refereeStat]
        (c\<lparr>fSt := (fSt c)\<lparr>st := (st (fSt c))\<lparr>refereeStat := v\<rparr>\<rparr>\<rparr>))"

subsection \<open>The critical sections\<close>

text \<open>
  Every critical section of the three files but the one of \<open>constituteTeam\<close> has the same
  three statements: write the own slot, \<open>saveState\<close>, \<open>semUp\<close> on the mutex. They are
  arrive (ARRIVING), waitReferee (PLAYING) and playUntilEnd (ENDING_GAME) of the player
  and of the goalie, and arrive (ARRIVINGR), waitForTeams (WAITING_TEAMS), startGame
  (STARTING_GAME), play (REFEREEING) and endGame (ENDING_GAME) of the referee.
\<close>

definition publish :: "proc \<Rightarrow> stat \<Rightarrow> config \<Rightarrow> config option" where
  "publish p v c = map_option (\<lambda>c'. semUp p mutex (saveState p c')) (setStat p v c)"

text \<open>
  The critical section of \<open>playerConstituteTeam\<close> (lines 188-203) and of
  \<open>goalieConstituteTeam\<close> (lines 187-202), which differ in the slot array only. The
  result is the value the function returns (\<open>team\<close>, initialised to 0) and the new world.
  The test reads \<open>goaliesFree\<close> only when its first half holds (\<open>&&\<close>).
  \<open>teamId++\<close> and the two \<open>-=\<close> are arithmetic on \<open>int\<close>: a result outside the range of
  a 32-bit \<open>int\<close> is a signed overflow, which has no defined behaviour in C, and the
  result of the model is \<open>None\<close>.
\<close>

definition c_int :: "int \<Rightarrow> bool" where
  "c_int x = (- 2147483648 \<le> x \<and> x \<le> 2147483647)"

definition enough :: "probConst \<Rightarrow> FULL_STAT \<Rightarrow> bool" where
  "enough K f = (NUMTEAMPLAYERS K \<le> playersFree f \<and> NUMTEAMGOALIES K \<le> goaliesFree f)"

definition constituteTeam :: "probConst \<Rightarrow> proc \<Rightarrow> config \<Rightarrow> (int \<times> config) option" where
  "constituteTeam K p c =
     (let c0 = acts p (if NUMTEAMPLAYERS K \<le> playersFree (fSt c)
                       then [Rd V_playersFree, Rd V_goaliesFree] else [Rd V_playersFree]) c in
      if enough K (fSt c0) then
        (if c_int (teamId (fSt c0) + 1) \<and> c_int (playersFree (fSt c0) - NUMTEAMPLAYERS K) \<and>
            c_int (goaliesFree (fSt c0) - NUMTEAMGOALIES K)
         then
           (let t = teamId (fSt c0);
                c1 = acts p [Wr V_teamId] (c0\<lparr>fSt := (fSt c0)\<lparr>teamId := teamId (fSt c0) + 1\<rparr>\<rparr>);
                c2 = acts p [Wr V_playersFree]
                       (c1\<lparr>fSt := (fSt c1)\<lparr>playersFree := playersFree (fSt c1) - NUMTEAMPLAYERS K\<rparr>\<rparr>);
                c3 = acts p [Wr V_goaliesFree]
                       (c2\<lparr>fSt := (fSt c2)\<lparr>goaliesFree := goaliesFree (fSt c2) - NUMTEAMGOALIES K\<rparr>\<rparr>)
            in map_option (\<lambda>c4. (t, semUp p mutex (saveState p c4))) (setStat p FORMING_TEAM c3))
         else None)
      else map_option (\<lambda>c1. (0, semUp p mutex (saveState p c1))) (setStat p LATE c0))"

definition playerConstituteTeam :: "probConst \<Rightarrow> int \<Rightarrow> config \<Rightarrow> (int \<times> config) option" where
  "playerConstituteTeam K i c = constituteTeam K (Player i) c"

definition goalieConstituteTeam :: "probConst \<Rightarrow> int \<Rightarrow> config \<Rightarrow> (int \<times> config) option" where
  "goalieConstituteTeam K i c = constituteTeam K (Goalie i) c"

subsection \<open>The steps of the processes\<close>

definition goto :: "proc \<Rightarrow> loc \<Rightarrow> config \<Rightarrow> config" where
  "goto p l c = c\<lparr>pc := (pc c)(p := l)\<rparr>"

text \<open>
  A player or a goalie: \<open>arrive (n); if ((team = constituteTeam (n)) != 0)
  { waitReferee (n, team); playUntilEnd (n, team); }\<close>.
\<close>

definition actorStep :: "probConst \<Rightarrow> proc \<Rightarrow> config \<Rightarrow> config option" where
  "actorStep K p c =
     (case pc c p of
        ArriveDown \<Rightarrow> map_option (goto p ArriveCS) (semDown p mutex c)
      | ArriveCS \<Rightarrow> map_option (goto p ConstDown) (publish p ARRIVING c)
      | ConstDown \<Rightarrow> map_option (goto p ConstCS) (semDown p mutex c)
      | ConstCS \<Rightarrow>
          map_option
            (\<lambda>(t, c'). goto p (if t \<noteq> 0 then WaitRefSem else Finished) (c'\<lparr>team := (team c')(p := t)\<rparr>))
            (constituteTeam K p c)
      | WaitRefSem \<Rightarrow> map_option (goto p WaitRefDown) (semDown p playersWaitReferee c)
      | WaitRefDown \<Rightarrow> map_option (goto p WaitRefCS) (semDown p mutex c)
      | WaitRefCS \<Rightarrow> map_option (goto p PlayEndSem) (publish p PLAYING c)
      | PlayEndSem \<Rightarrow> map_option (goto p PlayEndDown) (semDown p playersWaitEnd c)
      | PlayEndDown \<Rightarrow> map_option (goto p PlayEndCS) (semDown p mutex c)
      | PlayEndCS \<Rightarrow> map_option (goto p Finished) (publish p ENDING_GAME c)
      | _ \<Rightarrow> None)"

text \<open>
  The referee: \<open>arrive (); waitForTeams (); startGame (); play (); endGame ();\<close>.
  In \<open>waitForTeams\<close> the loop \<open>while (sh->fSt.teamId < 3) usleep (1000);\<close> comes after the
  mutex is released: each test of the loop is one step, \<open>RWaitPoll\<close>.
  \<open>startGame\<close> and \<open>endGame\<close> end with a single \<open>semUp\<close>, on \<open>playersWaitReferee\<close> and on
  \<open>playersWaitEnd\<close>.
\<close>

definition refereeStep :: "config \<Rightarrow> config option" where
  "refereeStep c =
     (case pc c Referee of
        RArriveDown \<Rightarrow> map_option (goto Referee RArriveCS) (semDown Referee mutex c)
      | RArriveCS \<Rightarrow> map_option (goto Referee RWaitDown) (publish Referee ARRIVINGR c)
      | RWaitDown \<Rightarrow> map_option (goto Referee RWaitCS) (semDown Referee mutex c)
      | RWaitCS \<Rightarrow> map_option (goto Referee RWaitPoll) (publish Referee WAITING_TEAMS c)
      | RWaitPoll \<Rightarrow>
          Some (goto Referee (if teamId (fSt c) < 3 then RWaitPoll else RStartDown)
                  (acts Referee [Rd V_teamId] c))
      | RStartDown \<Rightarrow> map_option (goto Referee RStartCS) (semDown Referee mutex c)
      | RStartCS \<Rightarrow> map_option (goto Referee RStartUp) (publish Referee STARTING_GAME c)
      | RStartUp \<Rightarrow> Some (goto Referee RPlayDown (semUp Referee playersWaitReferee c))
      | RPlayDown \<Rightarrow> map_option (goto Referee RPlayCS) (semDown Referee mutex c)
      | RPlayCS \<Rightarrow> map_option (goto Referee REndDown) (publish Referee REFEREEING c)
      | REndDown \<Rightarrow> map_option (goto Referee REndCS) (semDown Referee mutex c)
      | REndCS \<Rightarrow> map_option (goto Referee REndUp) (publish Referee ENDING_GAME c)
      | REndUp \<Rightarrow> Some (goto Referee Finished (semUp Referee playersWaitEnd c))
      | _ \<Rightarrow> None)"

text \<open>
  Modelled from the spec: the program that starts the processes is not among the
  sources. Section 6: it starts one referee, \<open>NUM_PLAYERS\<close> players and \<open>NUM_GOALIES\<close>
  goalies, each with its identity; the identities are the indices of the slots.
\<close>

fun started :: "probConst \<Rightarrow> proc \<Rightarrow> bool" where
  "started K (Player i) = (0 \<le> i \<and> i < NUMPLAYERS K)"
| "started K (Goalie i) = (0 \<le> i \<and> i < NUMGOALIES K)"
| "started K Referee = True"

definition actors :: "probConst \<Rightarrow> proc list" where
  "actors K = map (\<lambda>i. Player (int i)) [0..<nat (NUMPLAYERS K)] @
              map (\<lambda>i. Goalie (int i)) [0..<nat (NUMGOALIES K)]"

definition step :: "probConst \<Rightarrow> proc \<Rightarrow> config \<Rightarrow> config option" where
  "step K p c =
     (if started K p
      then (case p of Referee \<Rightarrow> refereeStep c | _ \<Rightarrow> actorStep K p c)
      else None)"

text \<open>
  A run follows a schedule, the list of the processes in the order they are given the
  processor. A process that cannot move (it is blocked in \<open>semDown\<close>, has finished, was
  never started, or stands before a statement with no defined behaviour) leaves the world as
  it is.
\<close>

definition next_config :: "probConst \<Rightarrow> proc \<Rightarrow> config \<Rightarrow> config" where
  "next_config K p c = (case step K p c of None \<Rightarrow> c | Some c' \<Rightarrow> c')"

fun exec :: "probConst \<Rightarrow> proc list \<Rightarrow> config \<Rightarrow> config" where
  "exec K [] c = c"
| "exec K (p # ps) c = exec K ps (next_config K p c)"

text \<open>
  Modelled from the spec: the region and the semaphores are created by the program that
  starts the processes, which is not among the sources. Section 3: \<open>playersFree\<close> and
  \<open>goaliesFree\<close> start at the population, \<open>nextTeamId\<close> at 1; every actor starts its life
  cycle in its arriving state. The mutex starts at 1 and the two conditions at 0
  (section 4.4: the referee posts, each teammate consumes one).
\<close>

definition init :: "probConst \<Rightarrow> config" where
  "init K =
     \<lparr>fSt = \<lparr>st = \<lparr>playerStat = replicate (nat (NUMPLAYERS K)) ARRIVING,
                    goalieStat = replicate (nat (NUMGOALIES K)) ARRIVING,
                    refereeStat = ARRIVINGR\<rparr>,
             playersFree = NUMPLAYERS K, goaliesFree = NUMGOALIES K, teamId = 1\<rparr>,
      sem = (\<lambda>s. if s = mutex then 1 else 0),
      logf = [],
      pc = (\<lambda>p. if p = Referee then RArriveDown else ArriveDown),
      team = (\<lambda>p. 0),
      evs = []\<rparr>"

subsection \<open>Validation of the command line\<close>

text \<open>
  The first lines of \<open>main\<close> in the player and goalie files (lines 70-82).
  \<open>strtol\<close> belongs to the C library: its result for \<open>argv[1]\<close> is an argument of the
  model, the value \<open>v\<close> it returns (a \<open>long\<close>) and the rest of the string that \<open>tinp\<close> is
  left pointing at; \<open>*tinp != 0\<close> says that the rest is not empty.
  \<open>n = (unsigned int) strtol (...)\<close> with \<open>int n\<close> (32 bits) keeps the low 32 bits of \<open>v\<close>
  and reads them as a signed number. The population macros are plain integer constants,
  so \<open>n >= NUMPLAYERS\<close> compares signed integers.
  With a wrong argument count the message goes to the file error_PL (error_GL); the
  second message is printed before \<open>stderr\<close> is redirected to \<open>argv[3]\<close> (line 88), so
  it goes to the stream the process was started with. Both paths return EXIT_FAILURE.
\<close>

datatype channel = File string | Inherited_stderr

datatype rejected = EXIT_FAILURE channel string

definition playerMain :: "probConst \<Rightarrow> int \<Rightarrow> int \<Rightarrow> string \<Rightarrow> rejected + int" where
  "playerMain K argc v rest =
     (if argc \<noteq> 4
      then Inl (EXIT_FAILURE (File ''error_PL'') ''Number of parameters is incorrect!'')
      else (let n = sint (word_of_int v :: 32 word)
            in if 0 < length rest \<or> NUMPLAYERS K \<le> n
               then Inl (EXIT_FAILURE Inherited_stderr ''Player process identification is wrong!'')
               else Inr n))"

definition goalieMain :: "probConst \<Rightarrow> int \<Rightarrow> int \<Rightarrow> string \<Rightarrow> rejected + int" where
  "goalieMain K argc v rest =
     (if argc \<noteq> 4
      then Inl (EXIT_FAILURE (File ''error_GL'') ''Number of parameters is incorrect!'')
      else (let n = sint (word_of_int v :: 32 word)
            in if 0 < length rest \<or> NUMGOALIES K \<le> n
               then Inl (EXIT_FAILURE Inherited_stderr ''Goalie process identification is wrong!'')
               else Inr n))"

subsection \<open>Notions the properties are stated with\<close>

text \<open>The variable of the snapshot that is a process's own slot.\<close>

fun own_var :: "proc \<Rightarrow> var" where
  "own_var (Player i) = V_playerStat i"
| "own_var (Goalie i) = V_goalieStat i"
| "own_var Referee = V_refereeStat"

text \<open>The value of a process's own slot in a snapshot.\<close>

fun own_slot :: "proc \<Rightarrow> FULL_STAT \<Rightarrow> stat" where
  "own_slot (Player i) f = playerStat (st f) ! nat i"
| "own_slot (Goalie i) f = goalieStat (st f) ! nat i"
| "own_slot Referee f = refereeStat (st f)"

text \<open>
  The number of teams formed so far: the number of times the leader branch of
  \<open>constituteTeam\<close> has run, that is the number of \<open>teamId++\<close> in the history.
\<close>

definition teams_formed :: "config \<Rightarrow> nat" where
  "teams_formed c = length (filter (\<lambda>e. snd e = Wr V_teamId) (evs c))"

text \<open>
  The mutex discipline over a history: every access to a variable of the snapshot is
  made by a process whose last operation on the mutex was a \<open>semDown\<close>. The first
  argument says who holds the mutex at the start.
\<close>

fun guarded :: "(proc \<Rightarrow> bool) \<Rightarrow> (proc \<times> action) list \<Rightarrow> bool" where
  "guarded h [] = True"
| "guarded h ((p, SemDown s) # es) = guarded (if s = mutex then h(p := True) else h) es"
| "guarded h ((p, SemUp s) # es) = guarded (if s = mutex then h(p := False) else h) es"
| "guarded h ((p, Rd x) # es) = (h p \<and> guarded h es)"
| "guarded h ((p, Wr x) # es) = (h p \<and> guarded h es)"

text \<open>
  Records of the log: one that shows the referee in STARTING_GAME, and one that shows
  some player or goalie in PLAYING.
\<close>

definition starting_record :: "FULL_STAT \<Rightarrow> bool" where
  "starting_record r = (refereeStat (st r) = STARTING_GAME)"

definition playing_record :: "FULL_STAT \<Rightarrow> bool" where
  "playing_record r = (PLAYING \<in> set (playerStat (st r)) \<or> PLAYING \<in> set (goalieStat (st r)))"

text \<open>
  The constraints of the configuration (section 3 of the specification): teams are not
  empty and the populations can fill two teams. \<open>two_teams_only\<close>: they cannot fill a third.
\<close>

definition config_ok :: "probConst \<Rightarrow> bool" where
  "config_ok K =
     (1 \<le> NUMTEAMPLAYERS K \<and> 1 \<le> NUMTEAMGOALIES K \<and>
      2 * NUMTEAMPLAYERS K \<le> NUMPLAYERS K \<and> 2 * NUMTEAMGOALIES K \<le> NUMGOALIES K)"

definition two_teams_only :: "probConst \<Rightarrow> bool" where
  "two_teams_only K =
     (NUMPLAYERS K < 3 * NUMTEAMPLAYERS K \<or> NUMGOALIES K < 3 * NUMTEAMGOALIES K)"

text \<open>The places of a player or goalie after \<open>constituteTeam\<close> has returned.\<close>

definition left_constitute :: "loc \<Rightarrow> bool" where
  "left_constitute l =
     (l = WaitRefSem \<or> l = WaitRefDown \<or> l = WaitRefCS \<or>
      l = PlayEndSem \<or> l = PlayEndDown \<or> l = PlayEndCS \<or> l = Finished)"

text \<open>The places of \<open>arrive\<close>, \<open>waitReferee\<close> and \<open>playUntilEnd\<close> of a player or goalie.\<close>

definition in_arrive :: "loc \<Rightarrow> bool" where
  "in_arrive l = (l = ArriveDown \<or> l = ArriveCS)"

definition in_waitReferee :: "loc \<Rightarrow> bool" where
  "in_waitReferee l = (l = WaitRefSem \<or> l = WaitRefDown \<or> l = WaitRefCS)"

definition in_playUntilEnd :: "loc \<Rightarrow> bool" where
  "in_playUntilEnd l = (l = PlayEndSem \<or> l = PlayEndDown \<or> l = PlayEndCS)"

text \<open>
  The order of the log: every record that shows somebody PLAYING comes strictly after a
  record that shows the referee in STARTING_GAME.
\<close>

definition log_ordered :: "FULL_STAT list \<Rightarrow> bool" where
  "log_ordered l =
     (\<forall>i<length l. playing_record (l ! i) \<longrightarrow> (\<exists>j<i. starting_record (l ! j)))"

text \<open>
  What holds in every state about the start of the match. \<open>posted\<close>: the referee is past
  the \<open>semUp\<close> of \<open>startGame\<close>. A signal on \<open>playersWaitReferee\<close>, and a player or goalie
  past its \<open>semDown\<close> on it, are found only once the referee has posted; the referee has
  logged STARTING_GAME before posting; nobody is PLAYING before that record; and the log
  is in order.
\<close>

definition posted :: "config \<Rightarrow> bool" where
  "posted c = (pc c Referee \<in> {RPlayDown, RPlayCS, REndDown, REndCS, REndUp, Finished})"

definition start_logged :: "config \<Rightarrow> bool" where
  "start_logged c = (\<exists>r\<in>set (logf c). starting_record r)"

definition start_inv :: "config \<Rightarrow> bool" where
  "start_inv c =
     ((0 < sem c playersWaitReferee \<longrightarrow> posted c) \<and>
      (\<forall>p. p \<noteq> Referee \<and> pc c p \<in> {WaitRefDown, WaitRefCS, PlayEndSem, PlayEndDown, PlayEndCS}
           \<longrightarrow> posted c) \<and>
      (posted c \<or> pc c Referee = RStartUp \<longrightarrow> start_logged c) \<and>
      (playing_record (fSt c) \<longrightarrow> start_logged c) \<and>
      log_ordered (logf c))"

text \<open>
  The places inside a critical section: between the \<open>semDown\<close> on the mutex and the
  statements that end with the \<open>semUp\<close> on it.
\<close>

definition in_cs :: "loc \<Rightarrow> bool" where
  "in_cs l = (l \<in> {ArriveCS, ConstCS, WaitRefCS, PlayEndCS,
                     RArriveCS, RWaitCS, RStartCS, RPlayCS, REndCS})"

text \<open>
  Who holds the mutex after a history, and the history without the polls of the referee
  (its reads of \<open>teamId\<close> in the loop of \<open>waitForTeams\<close>).
\<close>

fun holding :: "(proc \<Rightarrow> bool) \<Rightarrow> (proc \<times> action) list \<Rightarrow> proc \<Rightarrow> bool" where
  "holding h [] = h"
| "holding h ((p, SemDown s) # es) = holding (if s = mutex then h(p := True) else h) es"
| "holding h ((p, SemUp s) # es) = holding (if s = mutex then h(p := False) else h) es"
| "holding h ((p, Rd x) # es) = holding h es"
| "holding h ((p, Wr x) # es) = holding h es"

definition but_polls :: "(proc \<times> action) list \<Rightarrow> (proc \<times> action) list" where
  "but_polls es = filter (\<lambda>e. e \<noteq> (Referee, Rd V_teamId)) es"

definition is_access :: "action \<Rightarrow> bool" where
  "is_access a = (case a of Rd x \<Rightarrow> True | Wr x \<Rightarrow> True | _ \<Rightarrow> False)"

text \<open>
  What holds in every state about the mutex: it is 0 when some process is inside a
  critical section and 1 otherwise, at most one process is inside, and apart from the
  polls every access of the history was made by the process holding the mutex.
\<close>

definition mutex_inv :: "config \<Rightarrow> bool" where
  "mutex_inv c =
     (sem c mutex = (if \<exists>p. in_cs (pc c p) then 0 else 1) \<and>
      (\<forall>p q. in_cs (pc c p) \<and> in_cs (pc c q) \<longrightarrow> p = q) \<and>
      guarded (\<lambda>p. False) (but_polls (evs c)) \<and>
      (\<forall>p. holding (\<lambda>p. False) (but_polls (evs c)) p \<longleftrightarrow> in_cs (pc c p)))"

text \<open>
  What holds in every state about the teams, for populations that cannot fill a third
  team: \<open>teamId\<close> and the free counts follow the number of teams formed, at most two
  teams are formed, the team numbers handed out are distinct and below \<open>teamId\<close>, and a
  player or goalie that came back from \<open>constituteTeam\<close> with 0 found the test false (it
  stays false from then on).
\<close>

definition team_inv :: "probConst \<Rightarrow> config \<Rightarrow> bool" where
  "team_inv K c =
     (teamId (fSt c) = 1 + int (teams_formed c) \<and>
      playersFree (fSt c) = NUMPLAYERS K - NUMTEAMPLAYERS K * int (teams_formed c) \<and>
      goaliesFree (fSt c) = NUMGOALIES K - NUMTEAMGOALIES K * int (teams_formed c) \<and>
      teams_formed c \<le> 2 \<and>
      (\<forall>p. team c p \<noteq> 0 \<longrightarrow> 1 \<le> team c p \<and> team c p < teamId (fSt c)) \<and>
      (\<forall>p q. team c p = team c q \<and> team c p \<noteq> 0 \<longrightarrow> p = q) \<and>
      (\<forall>p. p \<noteq> Referee \<and> left_constitute (pc c p) \<and> team c p = 0 \<longrightarrow> \<not> enough K (fSt c)))"

subsection \<open>Configurations and schedules used as examples\<close>

text \<open>Scenario 1 of the specification: 8 players, 2 goalies, teams of 4 players and 1 goalie.\<close>

definition K_exact :: probConst where
  "K_exact = \<lparr>NUMPLAYERS = 8, NUMGOALIES = 2, NUMTEAMPLAYERS = 4, NUMTEAMGOALIES = 1\<rparr>"

text \<open>Scenario 3: 8 players and a single goalie.\<close>

definition K_short :: probConst where
  "K_short = \<lparr>NUMPLAYERS = 8, NUMGOALIES = 1, NUMTEAMPLAYERS = 4, NUMTEAMGOALIES = 1\<rparr>"

text \<open>Populations that fill three teams: 12 players, 3 goalies.\<close>

definition K_three :: probConst where
  "K_three = \<lparr>NUMPLAYERS = 12, NUMGOALIES = 3, NUMTEAMPLAYERS = 4, NUMTEAMGOALIES = 1\<rparr>"

text \<open>
  Player 0 runs \<open>arrive\<close> and \<open>constituteTeam\<close> (four steps); player 1 runs \<open>arrive\<close> and
  enters the critical section of \<open>constituteTeam\<close> (three steps).
\<close>

definition sched_second :: "proc list" where
  "sched_second = replicate 4 (Player 0) @ replicate 3 (Player 1)"

text \<open>
  The referee runs \<open>arrive\<close> and \<open>waitForTeams\<close> up to the first test of its loop.
\<close>

definition sched_poll :: "proc list" where
  "sched_poll = replicate 5 Referee"

text \<open>
  Players 0 and 1 run \<open>arrive\<close> and \<open>constituteTeam\<close>, then the referee runs \<open>arrive\<close> and
  \<open>waitForTeams\<close> (five steps, the last one the test that ends the loop).
\<close>

definition sched_ready :: "proc list" where
  "sched_ready = replicate 4 (Player 0) @ replicate 4 (Player 1) @ replicate 5 Referee"

text \<open>
  A whole run of scenario 1. The referee arrives and starts waiting; every player and
  goalie runs \<open>arrive\<close>; every player and goalie runs \<open>constituteTeam\<close>, in the order of
  \<open>actors\<close>; the referee leaves its loop and runs \<open>startGame\<close>; player 0 runs
  \<open>waitReferee\<close>; the referee runs \<open>play\<close> and \<open>endGame\<close>; player 0 runs \<open>playUntilEnd\<close>.
\<close>

definition sched_exact :: "proc list" where
  "sched_exact =
     replicate 4 Referee @
     concat (map (\<lambda>p. [p, p]) (actors K_exact)) @
     concat (map (\<lambda>p. [p, p]) (actors K_exact)) @
     replicate 4 Referee @ replicate 3 (Player 0) @
     replicate 5 Referee @ replicate 3 (Player 0)"

text \<open>
  After \<open>sched_ready\<close> the referee runs \<open>startGame\<close> and player 0 enters the critical
  section of \<open>waitReferee\<close>.
\<close>

definition sched_kickoff :: "proc list" where
  "sched_kickoff = sched_ready @ replicate 3 Referee @ replicate 2 (Player 0)"

text \<open>Three players of the 12/3 population run \<open>arrive\<close> and \<open>constituteTeam\<close>.\<close>

definition sched_three :: "proc list" where
  "sched_three = replicate 4 (Player 0) @ replicate 4 (Player 1) @ replicate 4 (Player 2)"

section \<open>Basic facts about the steps\<close>

subsection \<open>What each primitive changes\<close>

lemma acts_proj [simp]:
  "fSt (acts p as c) = fSt c" "sem (acts p as c) = sem c" "logf (acts p as c) = logf c"
  "pc (acts p as c) = pc c" "team (acts p as c) = team c"
  "evs (acts p as c) = evs c @ map (Pair p) as"
  by (simp_all add: acts_def)

lemma goto_proj [simp]:
  "fSt (goto p l c) = fSt c" "sem (goto p l c) = sem c" "logf (goto p l c) = logf c"
  "pc (goto p l c) = (pc c)(p := l)" "team (goto p l c) = team c" "evs (goto p l c) = evs c"
  by (simp_all add: goto_def)

lemma semUp_proj [simp]:
  "fSt (semUp p s c) = fSt c" "sem (semUp p s c) = (sem c)(s := sem c s + 1)"
  "logf (semUp p s c) = logf c" "pc (semUp p s c) = pc c" "team (semUp p s c) = team c"
  "evs (semUp p s c) = evs c @ [(p, SemUp s)]"
  by (simp_all add: semUp_def)

lemma saveState_proj [simp]:
  "fSt (saveState p c) = fSt c" "sem (saveState p c) = sem c"
  "logf (saveState p c) = logf c @ [fSt c]" "pc (saveState p c) = pc c"
  "team (saveState p c) = team c" "evs (saveState p c) = evs c @ [(p, Rd V_fSt)]"
  by (simp_all add: saveState_def)

lemma semDown_Some:
  assumes "semDown p s c = Some c'"
  shows "0 < sem c s" "fSt c' = fSt c" "sem c' = (sem c)(s := sem c s - 1)" "logf c' = logf c"
    "pc c' = pc c" "team c' = team c" "evs c' = evs c @ [(p, SemDown s)]"
  using assms by (auto simp: semDown_def split: if_splits)

lemma setStat_Some:
  assumes "setStat p v c = Some c'"
  shows "playersFree (fSt c') = playersFree (fSt c)" "goaliesFree (fSt c') = goaliesFree (fSt c)"
    "teamId (fSt c') = teamId (fSt c)" "sem c' = sem c" "logf c' = logf c"
    "pc c' = pc c" "team c' = team c" "evs c' = evs c @ [(p, Wr (own_var p))]"
  using assms by (cases p; force split: if_splits)+

lemma setStat_slots:
  assumes "setStat p v c = Some c'"
  shows "length (playerStat (st (fSt c'))) = length (playerStat (st (fSt c)))"
    "length (goalieStat (st (fSt c'))) = length (goalieStat (st (fSt c)))"
    "p \<noteq> Player (int j) \<Longrightarrow> playerStat (st (fSt c')) ! j = playerStat (st (fSt c)) ! j"
    "p \<noteq> Goalie (int j) \<Longrightarrow> goalieStat (st (fSt c')) ! j = goalieStat (st (fSt c)) ! j"
    "p \<noteq> Referee \<Longrightarrow> refereeStat (st (fSt c')) = refereeStat (st (fSt c))"
  using assms by (cases p; force split: if_splits simp: nth_list_update in_range_def)+

lemma publish_Some:
  assumes "publish p v c = Some c'"
  shows "\<exists>c1. setStat p v c = Some c1 \<and> fSt c' = fSt c1 \<and>
           sem c' = (sem c)(mutex := sem c mutex + 1) \<and> logf c' = logf c @ [fSt c1] \<and>
           pc c' = pc c \<and> team c' = team c \<and>
           evs c' = evs c @ [(p, Wr (own_var p)), (p, Rd V_fSt), (p, SemUp mutex)]"
  using assms by (auto simp: publish_def setStat_Some)



lemma own_var_not_teamId [simp]: "own_var p \<noteq> V_teamId"
  by (cases p) simp_all

lemma teams_formed_goto [simp]:
  "teams_formed (goto p l c) = teams_formed c"
  "teams_formed (c\<lparr>team := x\<rparr>) = teams_formed c"
  by (simp_all add: teams_formed_def)

lemma semDown_counters:
  "semDown p s c = Some c1 \<Longrightarrow> fSt c1 = fSt c \<and> teams_formed c1 = teams_formed c"
  by (simp add: semDown_Some teams_formed_def)

lemma publish_counters:
  assumes "publish p v c = Some c1"
  shows "teamId (fSt c1) = teamId (fSt c) \<and> playersFree (fSt c1) = playersFree (fSt c) \<and>
         goaliesFree (fSt c1) = goaliesFree (fSt c) \<and> teams_formed c1 = teams_formed c"
proof -
  from publish_Some [OF assms] obtain c0 where "setStat p v c = Some c0" "fSt c1 = fSt c0"
    "evs c1 = evs c @ [(p, Wr (own_var p)), (p, Rd V_fSt), (p, SemUp mutex)]"
    by blast
  then show ?thesis
    by (simp add: setStat_Some teams_formed_def)
qed

lemma constituteTeam_Some:
  assumes "constituteTeam K p c = Some (t, c')"
  shows "sem c' = (sem c)(mutex := sem c mutex + 1)" "pc c' = pc c" "team c' = team c"
    "logf c' = logf c @ [fSt c']"
    "enough K (fSt c) \<Longrightarrow> t = teamId (fSt c) \<and> teamId (fSt c') = teamId (fSt c) + 1 \<and>
       playersFree (fSt c') = playersFree (fSt c) - NUMTEAMPLAYERS K \<and>
       goaliesFree (fSt c') = goaliesFree (fSt c) - NUMTEAMGOALIES K \<and>
       teams_formed c' = teams_formed c + 1"
    "\<not> enough K (fSt c) \<Longrightarrow> t = 0 \<and> teamId (fSt c') = teamId (fSt c) \<and>
       playersFree (fSt c') = playersFree (fSt c) \<and> goaliesFree (fSt c') = goaliesFree (fSt c) \<and>
       teams_formed c' = teams_formed c"
  using assms
  by (auto simp: constituteTeam_def Let_def setStat_Some teams_formed_def split: if_splits)


lemma actorStep_cases:
  assumes "actorStep K p c = Some c'"
  shows
   "(\<exists>c1 l. semDown p mutex c = Some c1 \<and> c' = goto p l c1 \<and>
        (pc c p, l) \<in> {(ArriveDown, ArriveCS), (ConstDown, ConstCS),
                        (WaitRefDown, WaitRefCS), (PlayEndDown, PlayEndCS)}) \<or>
    (\<exists>c1. pc c p = WaitRefSem \<and> semDown p playersWaitReferee c = Some c1 \<and>
        c' = goto p WaitRefDown c1) \<or>
    (\<exists>c1. pc c p = PlayEndSem \<and> semDown p playersWaitEnd c = Some c1 \<and>
        c' = goto p PlayEndDown c1) \<or>
    (\<exists>c1 v l. publish p v c = Some c1 \<and> c' = goto p l c1 \<and>
        (pc c p, v, l) \<in> {(ArriveCS, ARRIVING, ConstDown), (WaitRefCS, PLAYING, PlayEndSem),
                           (PlayEndCS, ENDING_GAME, Finished)}) \<or>
    (\<exists>t c1. pc c p = ConstCS \<and> constituteTeam K p c = Some (t, c1) \<and>
        c' = goto p (if t \<noteq> 0 then WaitRefSem else Finished) (c1\<lparr>team := (team c1)(p := t)\<rparr>))"
  using assms by (cases "pc c p") (auto simp: actorStep_def)

lemma refereeStep_cases:
  assumes "refereeStep c = Some c'"
  shows
   "(\<exists>c1 l. semDown Referee mutex c = Some c1 \<and> c' = goto Referee l c1 \<and>
        (pc c Referee, l) \<in> {(RArriveDown, RArriveCS), (RWaitDown, RWaitCS),
           (RStartDown, RStartCS), (RPlayDown, RPlayCS), (REndDown, REndCS)}) \<or>
    (\<exists>c1 v l. publish Referee v c = Some c1 \<and> c' = goto Referee l c1 \<and>
        (pc c Referee, v, l) \<in> {(RArriveCS, ARRIVINGR, RWaitDown), (RWaitCS, WAITING_TEAMS, RWaitPoll),
           (RStartCS, STARTING_GAME, RStartUp), (RPlayCS, REFEREEING, REndDown),
           (REndCS, ENDING_GAME, REndUp)}) \<or>
    (pc c Referee = RWaitPoll \<and>
        c' = goto Referee (if teamId (fSt c) < 3 then RWaitPoll else RStartDown)
               (acts Referee [Rd V_teamId] c)) \<or>
    (pc c Referee = RStartUp \<and> c' = goto Referee RPlayDown (semUp Referee playersWaitReferee c)) \<or>
    (pc c Referee = REndUp \<and> c' = goto Referee Finished (semUp Referee playersWaitEnd c))"
  using assms by (cases "pc c Referee") (auto simp: refereeStep_def)

lemma step_cases [consumes 1, case_names a_mutex a_wait a_end a_pub a_const r_mutex r_pub r_poll r_start r_end]:
  assumes "step K p c = Some c'"
  obtains
    c1 l where "p \<noteq> Referee" "semDown p mutex c = Some c1" "c' = goto p l c1"
      "(pc c p, l) \<in> {(ArriveDown, ArriveCS), (ConstDown, ConstCS),
                        (WaitRefDown, WaitRefCS), (PlayEndDown, PlayEndCS)}"
  | c1 where "p \<noteq> Referee" "pc c p = WaitRefSem" "semDown p playersWaitReferee c = Some c1"
      "c' = goto p WaitRefDown c1"
  | c1 where "p \<noteq> Referee" "pc c p = PlayEndSem" "semDown p playersWaitEnd c = Some c1"
      "c' = goto p PlayEndDown c1"
  | c1 v l where "p \<noteq> Referee" "publish p v c = Some c1" "c' = goto p l c1"
      "(pc c p, v, l) \<in> {(ArriveCS, ARRIVING, ConstDown), (WaitRefCS, PLAYING, PlayEndSem),
                           (PlayEndCS, ENDING_GAME, Finished)}"
  | t c1 where "p \<noteq> Referee" "started K p" "pc c p = ConstCS" "constituteTeam K p c = Some (t, c1)"
      "c' = goto p (if t \<noteq> 0 then WaitRefSem else Finished) (c1\<lparr>team := (team c1)(p := t)\<rparr>)"
  | c1 l where "p = Referee" "semDown Referee mutex c = Some c1" "c' = goto Referee l c1"
      "(pc c Referee, l) \<in> {(RArriveDown, RArriveCS), (RWaitDown, RWaitCS),
           (RStartDown, RStartCS), (RPlayDown, RPlayCS), (REndDown, REndCS)}"
  | c1 v l where "p = Referee" "publish Referee v c = Some c1" "c' = goto Referee l c1"
      "(pc c Referee, v, l) \<in> {(RArriveCS, ARRIVINGR, RWaitDown), (RWaitCS, WAITING_TEAMS, RWaitPoll),
           (RStartCS, STARTING_GAME, RStartUp), (RPlayCS, REFEREEING, REndDown),
           (REndCS, ENDING_GAME, REndUp)}"
  | "p = Referee" "pc c Referee = RWaitPoll"
      "c' = goto Referee (if teamId (fSt c) < 3 then RWaitPoll else RStartDown)
               (acts Referee [Rd V_teamId] c)"
  | "p = Referee" "pc c Referee = RStartUp"
      "c' = goto Referee RPlayDown (semUp Referee playersWaitReferee c)"
  | "p = Referee" "pc c Referee = REndUp"
      "c' = goto Referee Finished (semUp Referee playersWaitEnd c)"
proof (cases "p = Referee")
  case True
  with assms have "refereeStep c = Some c'"
    by (simp add: step_def)
  from refereeStep_cases [OF this] show thesis
    apply (elim disjE exE conjE)
        apply (rule that(6) [OF True]; assumption)
       apply (rule that(7) [OF True]; assumption)
      apply (rule that(8) [OF True]; assumption)
     apply (rule that(9) [OF True]; assumption)
    apply (rule that(10) [OF True]; assumption)
    done
next
  case False
  with assms have "actorStep K p c = Some c'" and "started K p"
    by (cases p; simp add: step_def split: if_splits)+
  from actorStep_cases [OF this(1)] show thesis
    apply (elim disjE exE conjE)
        apply (rule that(1) [OF False]; assumption)
       apply (rule that(2) [OF False]; assumption)
      apply (rule that(3) [OF False]; assumption)
     apply (rule that(4) [OF False]; assumption)
    apply (rule that(5) [OF False \<open>started K p\<close>]; assumption)
    done
qed

subsection \<open>Steps and runs\<close>

lemma next_config_counters:
  "(teamId (fSt (next_config K p c)) = teamId (fSt c) \<and>
    playersFree (fSt (next_config K p c)) = playersFree (fSt c) \<and>
    goaliesFree (fSt (next_config K p c)) = goaliesFree (fSt c) \<and>
    teams_formed (next_config K p c) = teams_formed c) \<or>
   (enough K (fSt c) \<and>
    teamId (fSt (next_config K p c)) = teamId (fSt c) + 1 \<and>
    playersFree (fSt (next_config K p c)) = playersFree (fSt c) - NUMTEAMPLAYERS K \<and>
    goaliesFree (fSt (next_config K p c)) = goaliesFree (fSt c) - NUMTEAMGOALIES K \<and>
    teams_formed (next_config K p c) = teams_formed c + 1)"
proof (cases "step K p c")
  case None
  then show ?thesis by (simp add: next_config_def)
next
  case (Some c')
  then have n: "next_config K p c = c'" by (simp add: next_config_def)
  from Some show ?thesis
  proof (cases rule: step_cases)
    case (a_const t c1)
    with n show ?thesis
      by (cases "enough K (fSt c)") (simp_all add: constituteTeam_Some)
  next
    case r_poll
    with n show ?thesis by (simp add: teams_formed_def)
  next
    case r_start
    with n show ?thesis by (simp add: teams_formed_def)
  next
    case r_end
    with n show ?thesis by (simp add: teams_formed_def)
  next
    case (r_mutex c1 l)
    with n show ?thesis by (simp add: semDown_counters)
  next
    case (r_pub c1 v l)
    with n show ?thesis by (simp add: publish_counters)
  qed (simp_all add: n semDown_counters publish_counters)
qed

subsection \<open>Evaluating the model\<close>

lemmas model_defs = next_config_def step_def actorStep_def refereeStep_def goto_def publish_def
  constituteTeam_def enough_def c_int_def semDown_def semUp_def saveState_def acts_def
  in_range_def init_def

lemma sched_second_list:
  "sched_second = [Player 0, Player 0, Player 0, Player 0, Player 1, Player 1, Player 1]"
  by (simp add: sched_second_def numeral_eq_Suc)

lemma sched_poll_list: "sched_poll = [Referee, Referee, Referee, Referee, Referee]"
  by (simp add: sched_poll_def numeral_eq_Suc)

lemma sched_ready_list:
  "sched_ready = [Player 0, Player 0, Player 0, Player 0, Player 1, Player 1, Player 1, Player 1,
                  Referee, Referee, Referee, Referee, Referee]"
  by (simp add: sched_ready_def numeral_eq_Suc)

lemma sched_kickoff_list:
  "sched_kickoff = [Player 0, Player 0, Player 0, Player 0, Player 1, Player 1, Player 1, Player 1,
                    Referee, Referee, Referee, Referee, Referee, Referee, Referee, Referee,
                    Player 0, Player 0]"
  by (simp add: sched_kickoff_def sched_ready_list numeral_eq_Suc)

lemma sched_three_list:
  "sched_three = [Player 0, Player 0, Player 0, Player 0, Player 1, Player 1, Player 1, Player 1,
                  Player 2, Player 2, Player 2, Player 2]"
  by (simp add: sched_three_def numeral_eq_Suc)

lemma sched_exact_list:
  "sched_exact =
     [Referee, Referee, Referee, Referee,
      Player 0, Player 0, Player 1, Player 1, Player 2, Player 2, Player 3, Player 3,
      Player 4, Player 4, Player 5, Player 5, Player 6, Player 6, Player 7, Player 7,
      Goalie 0, Goalie 0, Goalie 1, Goalie 1,
      Player 0, Player 0, Player 1, Player 1, Player 2, Player 2, Player 3, Player 3,
      Player 4, Player 4, Player 5, Player 5, Player 6, Player 6, Player 7, Player 7,
      Goalie 0, Goalie 0, Goalie 1, Goalie 1,
      Referee, Referee, Referee, Referee, Player 0, Player 0, Player 0,
      Referee, Referee, Referee, Referee, Referee, Player 0, Player 0, Player 0]"
  by (simp add: sched_exact_def actors_def K_exact_def numeral_eq_Suc upt_rec)

subsection \<open>Mutual exclusion and the mutex discipline\<close>

text \<open>
  The critical sections exclude each other, which is what lets the model take the
  statements of one as a single step; and the polls of the referee are the only
  accesses to the snapshot made without the mutex.
\<close>

lemma guarded_append:
  "guarded h (es @ fs) \<longleftrightarrow> guarded h es \<and> guarded (holding h es) fs"
  by (induction h es rule: guarded.induct) simp_all

lemma holding_append: "holding h (es @ fs) = holding (holding h es) fs"
  by (induction h es rule: holding.induct) simp_all

lemma but_polls_append [simp]: "but_polls (es @ fs) = but_polls es @ but_polls fs"
  by (simp add: but_polls_def)

lemma guarded_accesses:
  "\<forall>a\<in>set as. is_access a \<Longrightarrow> guarded h (map (Pair p) as) \<longleftrightarrow> as = [] \<or> h p"
  by (induction as) (auto simp: is_access_def split: action.splits)

lemma holding_accesses:
  "\<forall>a\<in>set as. is_access a \<Longrightarrow> holding h (map (Pair p) as) = h"
  by (induction as) (auto simp: is_access_def split: action.splits)

lemma constituteTeam_evs:
  assumes "constituteTeam K p c = Some (t, c1)"
  shows "\<exists>as. evs c1 = evs c @ map (Pair p) as @ [(p, SemUp mutex)] \<and> (\<forall>a\<in>set as. is_access a)"
proof (cases "enough K (fSt c)")
  case True
  with assms have "evs c1 = evs c @ map (Pair p)
      [Rd V_playersFree, Rd V_goaliesFree, Wr V_teamId, Wr V_playersFree, Wr V_goaliesFree,
       Wr (own_var p), Rd V_fSt] @ [(p, SemUp mutex)]"
    by (auto simp: constituteTeam_def Let_def enough_def setStat_Some split: if_splits)
  then show ?thesis
    by (intro exI conjI, assumption) (simp add: is_access_def)
next
  case False
  with assms have "evs c1 = evs c @ map (Pair p)
      ((if NUMTEAMPLAYERS K \<le> playersFree (fSt c)
        then [Rd V_playersFree, Rd V_goaliesFree] else [Rd V_playersFree]) @
       [Wr (own_var p), Rd V_fSt]) @ [(p, SemUp mutex)]"
    by (auto simp: constituteTeam_def Let_def enough_def setStat_Some)
  then show ?thesis
    by (intro exI conjI, assumption) (simp add: is_access_def)
qed


lemma mutex_inv_init: "mutex_inv (init K)"
  by (simp add: mutex_inv_def init_def in_cs_def but_polls_def)

lemma mutex_inv_acquire:
  assumes I: "mutex_inv c" and free: "0 < sem c mutex"
    and c': "sem c' mutex = sem c mutex - 1" "pc c' = (pc c)(p := l)"
      "evs c' = evs c @ [(p, SemDown mutex)]"
    and l: "in_cs l"
  shows "mutex_inv c'"
proof -
  from I free have none: "\<And>q. \<not> in_cs (pc c q)" and one: "sem c mutex = 1"
    unfolding mutex_inv_def by (auto split: if_splits)
  from I none have h: "\<And>q. \<not> holding (\<lambda>p. False) (but_polls (evs c)) q"
    and g: "guarded (\<lambda>p. False) (but_polls (evs c))"
    unfolding mutex_inv_def by blast+
  have cs: "in_cs (pc c' q) \<longleftrightarrow> q = p" for q
    using c'(2) l none by simp
  have b: "but_polls (evs c') = but_polls (evs c) @ [(p, SemDown mutex)]"
    using c'(3) by (simp add: but_polls_def)
  have "holding (\<lambda>p. False) (but_polls (evs c')) q \<longleftrightarrow> q = p" for q
    using h by (simp add: b holding_append)
  moreover have "guarded (\<lambda>p. False) (but_polls (evs c'))"
    using g by (simp add: b guarded_append)
  moreover have "sem c' mutex = 0"
    using c'(1) one by simp
  ultimately show ?thesis
    unfolding mutex_inv_def using cs by auto
qed

lemma mutex_inv_release:
  assumes I: "mutex_inv c" and inside: "in_cs (pc c p)"
    and c': "sem c' mutex = sem c mutex + 1" "pc c' = (pc c)(p := l)"
      "evs c' = evs c @ map (Pair p) as @ [(p, SemUp mutex)]"
    and as: "\<forall>a\<in>set as. is_access a" "Rd V_teamId \<notin> set as \<or> p \<noteq> Referee"
    and l: "\<not> in_cs l"
  shows "mutex_inv c'"
proof -
  from I inside have only: "\<And>q. in_cs (pc c q) \<longleftrightarrow> q = p" and zero: "sem c mutex = 0"
    unfolding mutex_inv_def by (auto split: if_splits)
  from I only have h: "\<And>q. holding (\<lambda>p. False) (but_polls (evs c)) q \<longleftrightarrow> q = p"
    and g: "guarded (\<lambda>p. False) (but_polls (evs c))"
    unfolding mutex_inv_def by blast+
  have cs: "\<not> in_cs (pc c' q)" for q
    using c'(2) l only by simp
  have "but_polls (map (Pair p) as) = map (Pair p) as"
    using as(2) by (auto simp: but_polls_def filter_id_conv)
  then have b: "but_polls (evs c') = but_polls (evs c) @ map (Pair p) as @ [(p, SemUp mutex)]"
    using c'(3) by (simp add: but_polls_def)
  have "\<not> holding (\<lambda>p. False) (but_polls (evs c')) q" for q
    using h by (simp add: b holding_append holding_accesses [OF as(1)])
  moreover have "guarded (\<lambda>p. False) (but_polls (evs c'))"
    using g h by (simp add: b guarded_append guarded_accesses [OF as(1)])
  moreover have "sem c' mutex = 1"
    using c'(1) zero by simp
  ultimately show ?thesis
    unfolding mutex_inv_def using cs by auto
qed

lemma mutex_inv_quiet:
  assumes I: "mutex_inv c"
    and c': "sem c' mutex = sem c mutex" "pc c' = (pc c)(p := l)" "evs c' = evs c @ [e]"
    and e: "e = (Referee, Rd V_teamId) \<or> (\<exists>s. s \<noteq> mutex \<and> (e = (p, SemDown s) \<or> e = (p, SemUp s)))"
    and l: "\<not> in_cs (pc c p)" "\<not> in_cs l"
  shows "mutex_inv c'"
proof -
  have cs: "in_cs (pc c' q) \<longleftrightarrow> in_cs (pc c q)" for q
    using c'(2) l by simp
  from e have "guarded h (but_polls [e])" and "holding h (but_polls [e]) = h" for h
    by (auto simp: but_polls_def)
  then have "guarded (\<lambda>p. False) (but_polls (evs c')) \<longleftrightarrow> guarded (\<lambda>p. False) (but_polls (evs c))"
    and "holding (\<lambda>p. False) (but_polls (evs c')) = holding (\<lambda>p. False) (but_polls (evs c))"
    using c'(3) by (simp_all add: guarded_append holding_append)
  with I c'(1) cs show ?thesis
    unfolding mutex_inv_def by simp
qed


lemma mutex_inv_step:
  assumes I: "mutex_inv c" and S: "step K p c = Some c'"
  shows "mutex_inv c'"
  using S
proof (cases rule: step_cases)
  case (a_mutex c1 l)
  note D = semDown_Some [OF a_mutex(2)]
  from a_mutex(4) have l: "in_cs l" by (auto simp: in_cs_def)
  show ?thesis
    by (rule mutex_inv_acquire [OF I D(1), of _ p l]) (use a_mutex(3) D l in simp_all)
next
  case (a_wait c1)
  note D = semDown_Some [OF a_wait(3)]
  show ?thesis
    by (rule mutex_inv_quiet [OF I, of _ p WaitRefDown "(p, SemDown playersWaitReferee)"])
       (use a_wait(2,4) D in \<open>simp_all add: in_cs_def\<close>)
next
  case (a_end c1)
  note D = semDown_Some [OF a_end(3)]
  show ?thesis
    by (rule mutex_inv_quiet [OF I, of _ p PlayEndDown "(p, SemDown playersWaitEnd)"])
       (use a_end(2,4) D in \<open>simp_all add: in_cs_def\<close>)
next
  case (a_pub c1 v l)
  from publish_Some [OF a_pub(2)] have P: "sem c1 = (sem c)(mutex := sem c mutex + 1)"
      "pc c1 = pc c"
      "evs c1 = evs c @ [(p, Wr (own_var p)), (p, Rd V_fSt), (p, SemUp mutex)]"
    by blast+
  from a_pub(4) have l: "in_cs (pc c p)" "\<not> in_cs l" by (auto simp: in_cs_def)
  show ?thesis
    by (rule mutex_inv_release [OF I l(1), of _ l "[Wr (own_var p), Rd V_fSt]"])
       (use a_pub(1,3) P l(2) in \<open>simp_all add: is_access_def\<close>)
next
  case (a_const t c1)
  note D = constituteTeam_Some(1-3) [OF a_const(4)]
  from constituteTeam_evs [OF a_const(4)] obtain as
    where as: "evs c1 = evs c @ map (Pair p) as @ [(p, SemUp mutex)]" "\<forall>a\<in>set as. is_access a"
    by blast
  have l: "in_cs (pc c p)" "\<not> in_cs (if t \<noteq> 0 then WaitRefSem else Finished)"
    using a_const(3) by (simp_all add: in_cs_def)
  show ?thesis
    by (rule mutex_inv_release [OF I l(1), of _ "if t \<noteq> 0 then WaitRefSem else Finished" as])
       (use a_const(1,5) D as l(2) in simp_all)
next
  case (r_mutex c1 l)
  note D = semDown_Some [OF r_mutex(2)]
  from r_mutex(4) have l: "in_cs l" by (auto simp: in_cs_def)
  show ?thesis
    by (rule mutex_inv_acquire [OF I D(1), of _ Referee l]) (use r_mutex(1,3) D l in simp_all)
next
  case (r_pub c1 v l)
  from publish_Some [OF r_pub(2)] have P: "sem c1 = (sem c)(mutex := sem c mutex + 1)"
      "pc c1 = pc c"
      "evs c1 = evs c @ [(Referee, Wr (own_var Referee)), (Referee, Rd V_fSt), (Referee, SemUp mutex)]"
    by blast+
  from r_pub(4) have l: "in_cs (pc c Referee)" "\<not> in_cs l" by (auto simp: in_cs_def)
  show ?thesis
    by (rule mutex_inv_release [OF I l(1), of _ l "[Wr V_refereeStat, Rd V_fSt]"])
       (use r_pub(3) P l(2) in \<open>simp_all add: is_access_def\<close>)
next
  case r_poll
  show ?thesis
    by (rule mutex_inv_quiet [OF I, of _ Referee
          "if teamId (fSt c) < 3 then RWaitPoll else RStartDown" "(Referee, Rd V_teamId)"])
       (use r_poll in \<open>simp_all add: in_cs_def\<close>)
next
  case r_start
  show ?thesis
    by (rule mutex_inv_quiet [OF I, of _ Referee RPlayDown "(Referee, SemUp playersWaitReferee)"])
       (use r_start in \<open>simp_all add: in_cs_def\<close>)
next
  case r_end
  show ?thesis
    by (rule mutex_inv_quiet [OF I, of _ Referee Finished "(Referee, SemUp playersWaitEnd)"])
       (use r_end in \<open>simp_all add: in_cs_def\<close>)
qed

lemma mutex_inv_exec: "mutex_inv c \<Longrightarrow> mutex_inv (exec K sched c)"
proof (induction sched arbitrary: c)
  case Nil
  then show ?case by simp
next
  case (Cons p ps)
  have "mutex_inv (next_config K p c)"
    using Cons.prems by (cases "step K p c") (simp_all add: next_config_def mutex_inv_step)
  then show ?case
    using Cons.IH by simp
qed

lemma mutual_exclusion:
  "in_cs (pc (exec K sched (init K)) p) \<Longrightarrow> in_cs (pc (exec K sched (init K)) q) \<Longrightarrow> p = q"
  using mutex_inv_exec [OF mutex_inv_init, of K sched] unfolding mutex_inv_def by blast

lemma only_the_poll_is_unguarded:
  "guarded (\<lambda>p. False) (but_polls (evs (exec K sched (init K))))"
  using mutex_inv_exec [OF mutex_inv_init, of K sched] unfolding mutex_inv_def by blast

subsection \<open>The start of the match: an invariant of the runs\<close>

lemma nth_snoc_less: "j < length l \<Longrightarrow> (l @ [r]) ! j = l ! j"
  by (simp add: nth_append)

lemma log_ordered_snoc:
  "log_ordered (l @ [r]) \<longleftrightarrow>
     log_ordered l \<and> (playing_record r \<longrightarrow> (\<exists>x\<in>set l. starting_record x))"
proof
  assume L: "log_ordered (l @ [r])"
  have "log_ordered l"
    unfolding log_ordered_def
  proof (intro allI impI)
    fix i
    assume i: "i < length l" and "playing_record (l ! i)"
    then have "i < length (l @ [r])" and "playing_record ((l @ [r]) ! i)"
      by (simp_all add: nth_snoc_less)
    with L obtain j where j: "j < i" "starting_record ((l @ [r]) ! j)"
      unfolding log_ordered_def by blast
    with i have "starting_record (l ! j)"
      by (simp add: nth_snoc_less)
    with j show "\<exists>j<i. starting_record (l ! j)"
      by blast
  qed
  moreover have "\<exists>x\<in>set l. starting_record x" if "playing_record r"
  proof -
    have "length l < length (l @ [r])" and "playing_record ((l @ [r]) ! length l)"
      using that by simp_all
    with L obtain j where j: "j < length l" "starting_record ((l @ [r]) ! j)"
      unfolding log_ordered_def by blast
    then have "starting_record (l ! j)"
      by (simp add: nth_snoc_less)
    with j show ?thesis
      using nth_mem by blast
  qed
  ultimately show "log_ordered l \<and> (playing_record r \<longrightarrow> (\<exists>x\<in>set l. starting_record x))"
    by blast
next
  assume R: "log_ordered l \<and> (playing_record r \<longrightarrow> (\<exists>x\<in>set l. starting_record x))"
  show "log_ordered (l @ [r])"
    unfolding log_ordered_def
  proof (intro allI impI)
    fix i
    assume i: "i < length (l @ [r])" and p: "playing_record ((l @ [r]) ! i)"
    show "\<exists>j<i. starting_record ((l @ [r]) ! j)"
    proof (cases "i < length l")
      case True
      with p have "playing_record (l ! i)"
        by (simp add: nth_snoc_less)
      with R True obtain j where j: "j < i" "starting_record (l ! j)"
        unfolding log_ordered_def by blast
      with True have "starting_record ((l @ [r]) ! j)"
        by (simp add: nth_snoc_less)
      with j show ?thesis
        by blast
    next
      case False
      with i have e: "i = length l" by simp
      with p have "playing_record r" by simp
      with R obtain x where "x \<in> set l" "starting_record x"
        by blast
      then obtain j where j: "j < length l" "starting_record (l ! j)"
        by (auto simp: in_set_conv_nth)
      then have "starting_record ((l @ [r]) ! j)"
        by (simp add: nth_snoc_less)
      with j e show ?thesis
        by blast
    qed
  qed
qed

lemma setStat_not_playing:
  assumes "setStat p v c = Some c1" and "v \<noteq> PLAYING" and "playing_record (fSt c1)"
  shows "playing_record (fSt c)"
proof (cases p)
  case (Player i)
  with assms show ?thesis
    using set_update_subset_insert [of "playerStat (st (fSt c))" "nat i" v]
    by (auto simp: playing_record_def split: if_splits)
next
  case (Goalie i)
  with assms show ?thesis
    using set_update_subset_insert [of "goalieStat (st (fSt c))" "nat i" v]
    by (auto simp: playing_record_def split: if_splits)
next
  case Referee
  with assms show ?thesis
    by (auto simp: playing_record_def)
qed

lemma constituteTeam_not_playing:
  assumes "constituteTeam K p c = Some (t, c1)" and "playing_record (fSt c1)"
  shows "playing_record (fSt c)"
proof -
  from assms(1) obtain c0 c2 v where "setStat p v c0 = Some c2" "v \<noteq> PLAYING"
      "st (fSt c0) = st (fSt c)" "fSt c1 = fSt c2"
    by (auto simp: constituteTeam_def Let_def split: if_splits)
  with assms(2) setStat_not_playing [of p v c0 c2] show ?thesis
    by (simp add: playing_record_def)
qed


lemma start_inv_init: "start_inv (init K)"
  by (simp add: start_inv_def init_def posted_def start_logged_def playing_record_def
        log_ordered_def)

lemma start_invI:
  assumes "0 < sem c playersWaitReferee \<Longrightarrow> posted c"
    and "\<And>q. q \<noteq> Referee \<Longrightarrow>
           pc c q \<in> {WaitRefDown, WaitRefCS, PlayEndSem, PlayEndDown, PlayEndCS} \<Longrightarrow> posted c"
    and "posted c \<or> pc c Referee = RStartUp \<Longrightarrow> start_logged c"
    and "playing_record (fSt c) \<Longrightarrow> start_logged c"
    and "log_ordered (logf c)"
  shows "start_inv c"
  using assms unfolding start_inv_def by blast

lemma start_invD:
  assumes "start_inv c"
  shows "0 < sem c playersWaitReferee \<Longrightarrow> posted c"
    and "\<And>q. q \<noteq> Referee \<Longrightarrow>
           pc c q \<in> {WaitRefDown, WaitRefCS, PlayEndSem, PlayEndDown, PlayEndCS} \<Longrightarrow> posted c"
    and "posted c \<or> pc c Referee = RStartUp \<Longrightarrow> start_logged c"
    and "playing_record (fSt c) \<Longrightarrow> start_logged c"
    and "log_ordered (logf c)"
  using assms unfolding start_inv_def by blast+

lemma start_inv_next:
  assumes I: "start_inv c"
    and A1: "0 < sem c' playersWaitReferee \<Longrightarrow> 0 < sem c playersWaitReferee \<or> posted c'"
    and A2: "\<And>q. q \<noteq> Referee \<Longrightarrow>
           pc c' q \<in> {WaitRefDown, WaitRefCS, PlayEndSem, PlayEndDown, PlayEndCS} \<Longrightarrow>
           pc c q \<in> {WaitRefDown, WaitRefCS, PlayEndSem, PlayEndDown, PlayEndCS} \<or>
           0 < sem c playersWaitReferee"
    and A3: "posted c \<Longrightarrow> posted c'"
    and A4: "posted c' \<or> pc c' Referee = RStartUp \<Longrightarrow>
           posted c \<or> pc c Referee = RStartUp \<or> start_logged c'"
    and A5: "start_logged c \<Longrightarrow> start_logged c'"
    and A6: "playing_record (fSt c') \<Longrightarrow> playing_record (fSt c) \<or> start_logged c"
    and A7: "logf c' = logf c \<or> logf c' = logf c @ [fSt c']"
  shows "start_inv c'"
proof (rule start_invI)
  note D = start_invD [OF I]
  show "posted c'" if "0 < sem c' playersWaitReferee"
    using A1 [OF that] D(1) A3 by blast
  show "posted c'" if "q \<noteq> Referee"
      "pc c' q \<in> {WaitRefDown, WaitRefCS, PlayEndSem, PlayEndDown, PlayEndCS}" for q
    using A2 [OF that] D(1) D(2) [OF that(1)] A3 by blast
  show "start_logged c'" if "posted c' \<or> pc c' Referee = RStartUp"
    using A4 [OF that] D(3) A5 by blast
  show pl: "start_logged c'" if "playing_record (fSt c')"
    using A6 [OF that] D(4) A5 by blast
  from A7 show "log_ordered (logf c')"
  proof
    assume "logf c' = logf c"
    with D(5) show ?thesis by simp
  next
    assume l: "logf c' = logf c @ [fSt c']"
    have "\<exists>x\<in>set (logf c). starting_record x" if "playing_record (fSt c')"
      using A6 [OF that] D(4) by (auto simp: start_logged_def)
    with D(5) l show ?thesis
      by (simp add: log_ordered_snoc)
  qed
qed

lemma start_inv_step:
  assumes I: "start_inv c" and S: "step K p c = Some c'"
  shows "start_inv c'"
  using S
proof (cases rule: step_cases)
  case (a_mutex c1 l)
  note D = semDown_Some [OF a_mutex(2)]
  from a_mutex(4) have l: "l \<in> {WaitRefDown, WaitRefCS, PlayEndSem, PlayEndDown, PlayEndCS} \<Longrightarrow>
      pc c p \<in> {WaitRefDown, WaitRefCS, PlayEndSem, PlayEndDown, PlayEndCS}"
    by auto
  show ?thesis
  proof (rule start_inv_next [OF I])
    show "pc c q \<in> {WaitRefDown, WaitRefCS, PlayEndSem, PlayEndDown, PlayEndCS} \<or>
          0 < sem c playersWaitReferee"
      if "q \<noteq> Referee" "pc c' q \<in> {WaitRefDown, WaitRefCS, PlayEndSem, PlayEndDown, PlayEndCS}" for q
      using that l a_mutex(3) D(5) by (cases "q = p") simp_all
  qed (use a_mutex(1,3) D in \<open>auto simp: posted_def start_logged_def\<close>)
next
  case (a_wait c1)
  note D = semDown_Some [OF a_wait(3)]
  show ?thesis
  proof (rule start_inv_next [OF I])
    show "pc c q \<in> {WaitRefDown, WaitRefCS, PlayEndSem, PlayEndDown, PlayEndCS} \<or>
          0 < sem c playersWaitReferee"
      if "q \<noteq> Referee" "pc c' q \<in> {WaitRefDown, WaitRefCS, PlayEndSem, PlayEndDown, PlayEndCS}" for q
      using that a_wait(4) D(1,5) by (cases "q = p") simp_all
  qed (use a_wait(1,4) D in \<open>auto simp: posted_def start_logged_def\<close>)
next
  case (a_end c1)
  note D = semDown_Some [OF a_end(3)]
  show ?thesis
  proof (rule start_inv_next [OF I])
    show "pc c q \<in> {WaitRefDown, WaitRefCS, PlayEndSem, PlayEndDown, PlayEndCS} \<or>
          0 < sem c playersWaitReferee"
      if "q \<noteq> Referee" "pc c' q \<in> {WaitRefDown, WaitRefCS, PlayEndSem, PlayEndDown, PlayEndCS}" for q
      using that a_end(2,4) D(5) by (cases "q = p") simp_all
  qed (use a_end(1,4) D in \<open>auto simp: posted_def start_logged_def\<close>)
next
  case (a_pub c1 v l)
  from publish_Some [OF a_pub(2)] obtain c0 where c0: "setStat p v c = Some c0" "fSt c1 = fSt c0"
      "sem c1 = (sem c)(mutex := sem c mutex + 1)" "logf c1 = logf c @ [fSt c0]" "pc c1 = pc c"
    by blast
  from a_pub(4) have l: "l \<in> {WaitRefDown, WaitRefCS, PlayEndSem, PlayEndDown, PlayEndCS} \<Longrightarrow>
      pc c p \<in> {WaitRefDown, WaitRefCS, PlayEndSem, PlayEndDown, PlayEndCS}"
    by auto
  show ?thesis
  proof (rule start_inv_next [OF I])
    show "pc c q \<in> {WaitRefDown, WaitRefCS, PlayEndSem, PlayEndDown, PlayEndCS} \<or>
          0 < sem c playersWaitReferee"
      if "q \<noteq> Referee" "pc c' q \<in> {WaitRefDown, WaitRefCS, PlayEndSem, PlayEndDown, PlayEndCS}" for q
      using that l a_pub(3) c0(5) by (cases "q = p") simp_all
    show "playing_record (fSt c) \<or> start_logged c" if "playing_record (fSt c')"
    proof (cases "v = PLAYING")
      case True
      with a_pub(4) have "pc c p = WaitRefCS" by auto
      with start_invD(2) [OF I a_pub(1)] have "posted c" by simp
      with start_invD(3) [OF I] show ?thesis by simp
    next
      case False
      with that a_pub(3) c0(1,2) setStat_not_playing [of p v c c0] show ?thesis by simp
    qed
  qed (use a_pub(1,3) c0 in \<open>auto simp: posted_def start_logged_def\<close>)
next
  case (a_const t c1)
  note D = constituteTeam_Some(1-4) [OF a_const(4)]
  show ?thesis
  proof (rule start_inv_next [OF I])
    show "pc c q \<in> {WaitRefDown, WaitRefCS, PlayEndSem, PlayEndDown, PlayEndCS} \<or>
          0 < sem c playersWaitReferee"
      if "q \<noteq> Referee" "pc c' q \<in> {WaitRefDown, WaitRefCS, PlayEndSem, PlayEndDown, PlayEndCS}" for q
      using that a_const(5) D(2) by (cases "q = p") (simp_all split: if_splits)
    show "playing_record (fSt c) \<or> start_logged c" if "playing_record (fSt c')"
      using that a_const(5) constituteTeam_not_playing [OF a_const(4)] by simp
  qed (use a_const(1,5) D in \<open>auto simp: posted_def start_logged_def\<close>)
next
  case (r_mutex c1 l)
  note D = semDown_Some [OF r_mutex(2)]
  from r_mutex(4) have l: "posted c \<longleftrightarrow> l \<in> {RPlayDown, RPlayCS, REndDown, REndCS, REndUp, Finished}"
    "l \<noteq> RStartUp"
    by (auto simp: posted_def)
  show ?thesis
    by (rule start_inv_next [OF I])
       (use r_mutex(1,3) D l in \<open>auto simp: posted_def start_logged_def\<close>)
next
  case (r_pub c1 v l)
  from publish_Some [OF r_pub(2)] obtain c0 where c0: "setStat Referee v c = Some c0"
      "fSt c1 = fSt c0" "sem c1 = (sem c)(mutex := sem c mutex + 1)"
      "logf c1 = logf c @ [fSt c0]" "pc c1 = pc c"
    by blast
  from r_pub(4) have v: "v \<noteq> PLAYING" by auto
  from c0(1) have rs: "refereeStat (st (fSt c0)) = v" by auto
  from r_pub(4) have l: "posted c \<longleftrightarrow> l \<in> {RPlayDown, RPlayCS, REndDown, REndCS, REndUp, Finished}"
    "l = RStartUp \<Longrightarrow> v = STARTING_GAME"
    by (auto simp: posted_def)
  show ?thesis
  proof (rule start_inv_next [OF I])
    show "playing_record (fSt c) \<or> start_logged c" if "playing_record (fSt c')"
      using that r_pub(3) c0(1,2) v setStat_not_playing [of Referee v c c0] by simp
    show "posted c \<or> pc c Referee = RStartUp \<or> start_logged c'"
      if "posted c' \<or> pc c' Referee = RStartUp"
      using that r_pub(3) c0 l rs by (auto simp: posted_def start_logged_def starting_record_def)
  qed (use r_pub(1,3) c0 l in \<open>auto simp: posted_def start_logged_def\<close>)
next
  case r_poll
  show ?thesis
    by (rule start_inv_next [OF I])
       (use r_poll in \<open>auto simp: posted_def start_logged_def split: if_splits\<close>)
next
  case r_start
  show ?thesis
    by (rule start_inv_next [OF I])
       (use r_start in \<open>auto simp: posted_def start_logged_def\<close>)
next
  case r_end
  show ?thesis
    by (rule start_inv_next [OF I])
       (use r_end in \<open>auto simp: posted_def start_logged_def\<close>)
qed


lemma start_inv_exec: "start_inv c \<Longrightarrow> start_inv (exec K sched c)"
proof (induction sched arbitrary: c)
  case Nil
  then show ?case by simp
next
  case (Cons p ps)
  have "start_inv (next_config K p c)"
    using Cons.prems by (cases "step K p c") (simp_all add: next_config_def start_inv_step)
  then show ?case
    using Cons.IH by simp
qed

subsection \<open>The teams: an invariant of the runs\<close>

lemma team_inv_init: "team_inv K (init K)"
  by (simp add: team_inv_def init_def teams_formed_def left_constitute_def)

lemma team_inv_quiet:
  assumes I: "team_inv K c"
    and same: "teamId (fSt c') = teamId (fSt c)" "playersFree (fSt c') = playersFree (fSt c)"
      "goaliesFree (fSt c') = goaliesFree (fSt c)" "teams_formed c' = teams_formed c"
      "team c' = team c"
    and left: "\<And>q. q \<noteq> Referee \<Longrightarrow> left_constitute (pc c' q) \<Longrightarrow> left_constitute (pc c q)"
  shows "team_inv K c'"
proof -
  have e: "enough K (fSt c') = enough K (fSt c)"
    using same by (simp add: enough_def)
  from I same e left show ?thesis
    unfolding team_inv_def by metis
qed

lemma third_team_impossible:
  assumes K: "config_ok K" "two_teams_only K"
    and I: "team_inv K c" and e: "enough K (fSt c)"
  shows "teams_formed c \<le> 1"
proof (rule ccontr)
  assume "\<not> teams_formed c \<le> 1"
  with I have k: "teams_formed c = 2"
    by (simp add: team_inv_def)
  with I have "playersFree (fSt c) = NUMPLAYERS K - NUMTEAMPLAYERS K * 2"
    "goaliesFree (fSt c) = NUMGOALIES K - NUMTEAMGOALIES K * 2"
    by (simp_all add: team_inv_def)
  with e K show False
    by (simp add: enough_def two_teams_only_def config_ok_def)
qed

lemma team_inv_leader:
  assumes K: "config_ok K" "two_teams_only K"
    and I: "team_inv K c" and e: "enough K (fSt c)"
    and c': "teamId (fSt c') = teamId (fSt c) + 1"
      "playersFree (fSt c') = playersFree (fSt c) - NUMTEAMPLAYERS K"
      "goaliesFree (fSt c') = goaliesFree (fSt c) - NUMTEAMGOALIES K"
      "teams_formed c' = teams_formed c + 1"
      "team c' = (team c)(p := teamId (fSt c))"
      "\<And>q. q \<noteq> p \<Longrightarrow> pc c' q = pc c q"
  shows "team_inv K c'"
proof -
  from third_team_impossible [OF K I e] have k: "teams_formed c \<le> 1" .
  from I have i: "teamId (fSt c) = 1 + int (teams_formed c)"
      "playersFree (fSt c) = NUMPLAYERS K - NUMTEAMPLAYERS K * int (teams_formed c)"
      "goaliesFree (fSt c) = NUMGOALIES K - NUMTEAMGOALIES K * int (teams_formed c)"
      "\<And>q. team c q \<noteq> 0 \<Longrightarrow> 1 \<le> team c q \<and> team c q < teamId (fSt c)"
      "\<And>q r. team c q = team c r \<Longrightarrow> team c q \<noteq> 0 \<Longrightarrow> q = r"
      "\<And>q. q \<noteq> Referee \<Longrightarrow> left_constitute (pc c q) \<Longrightarrow> team c q = 0 \<Longrightarrow> \<not> enough K (fSt c)"
    unfolding team_inv_def by blast+
  have 1: "teamId (fSt c') = 1 + int (teams_formed c')"
    using c'(1,4) i(1) by simp
  have 2: "playersFree (fSt c') = NUMPLAYERS K - NUMTEAMPLAYERS K * int (teams_formed c')"
    using c'(2,4) i(2) by (simp add: algebra_simps)
  have 3: "goaliesFree (fSt c') = NUMGOALIES K - NUMTEAMGOALIES K * int (teams_formed c')"
    using c'(3,4) i(3) by (simp add: algebra_simps)
  have 4: "teams_formed c' \<le> 2"
    using k c'(4) by simp
  have 5: "1 \<le> team c' q \<and> team c' q < teamId (fSt c')" if "team c' q \<noteq> 0" for q
    using that c'(1,5) i(1) i(4) [of q] by (cases "q = p") auto
  have 6: "q = r" if "team c' q = team c' r" "team c' q \<noteq> 0" for q r
    using that c'(5) i(4) [of q] i(4) [of r] i(5) [of q r]
    by (cases "q = p"; cases "r = p") (auto split: if_splits)
  have 7: "\<not> enough K (fSt c')" if "q \<noteq> Referee" "left_constitute (pc c' q)" "team c' q = 0" for q
  proof (cases "q = p")
    case True
    with that(3) c'(5) i(1) show ?thesis by simp
  next
    case False
    with that c'(5,6) i(6) [of q] e show ?thesis by simp
  qed
  from 1 2 3 4 5 6 7 show ?thesis
    unfolding team_inv_def by blast
qed


lemma team_inv_late:
  assumes I: "team_inv K c" and e: "\<not> enough K (fSt c)"
    and c': "teamId (fSt c') = teamId (fSt c)" "playersFree (fSt c') = playersFree (fSt c)"
      "goaliesFree (fSt c') = goaliesFree (fSt c)" "teams_formed c' = teams_formed c"
      "team c' = (team c)(p := 0)"
      "\<And>q. q \<noteq> p \<Longrightarrow> pc c' q = pc c q"
  shows "team_inv K c'"
proof -
  from I have i: "teamId (fSt c) = 1 + int (teams_formed c)"
      "playersFree (fSt c) = NUMPLAYERS K - NUMTEAMPLAYERS K * int (teams_formed c)"
      "goaliesFree (fSt c) = NUMGOALIES K - NUMTEAMGOALIES K * int (teams_formed c)"
      "teams_formed c \<le> 2"
      "\<And>q. team c q \<noteq> 0 \<Longrightarrow> 1 \<le> team c q \<and> team c q < teamId (fSt c)"
      "\<And>q r. team c q = team c r \<Longrightarrow> team c q \<noteq> 0 \<Longrightarrow> q = r"
      "\<And>q. q \<noteq> Referee \<Longrightarrow> left_constitute (pc c q) \<Longrightarrow> team c q = 0 \<Longrightarrow> \<not> enough K (fSt c)"
    unfolding team_inv_def by blast+
  have e': "\<not> enough K (fSt c')"
    using e c'(2,3) by (simp add: enough_def)
  have 5: "1 \<le> team c' q \<and> team c' q < teamId (fSt c')" if "team c' q \<noteq> 0" for q
    using that c'(1,5) i(5) [of q] by (cases "q = p") auto
  have 6: "q = r" if "team c' q = team c' r" "team c' q \<noteq> 0" for q r
    using that c'(5) i(6) [of q r]
    by (cases "q = p"; cases "r = p") (auto split: if_splits)
  from i(1-4) c'(1-4) e' 5 6 show ?thesis
    unfolding team_inv_def by metis
qed

lemma team_inv_step:
  assumes K: "config_ok K" "two_teams_only K"
    and I: "team_inv K c" and S: "step K p c = Some c'"
  shows "team_inv K c'"
  using S
proof (cases rule: step_cases)
  case (a_mutex c1 l)
  note D = semDown_Some [OF a_mutex(2)]
  from a_mutex(4) have l: "left_constitute l \<Longrightarrow> left_constitute (pc c p)"
    by (auto simp: left_constitute_def)
  show ?thesis
  proof (rule team_inv_quiet [OF I])
    show "left_constitute (pc c q)" if "q \<noteq> Referee" "left_constitute (pc c' q)" for q
      using that l a_mutex(3) D(5) by (cases "q = p") simp_all
  qed (use a_mutex(3) D in \<open>simp_all add: teams_formed_def\<close>)
next
  case (a_wait c1)
  note D = semDown_Some [OF a_wait(3)]
  show ?thesis
  proof (rule team_inv_quiet [OF I])
    show "left_constitute (pc c q)" if "q \<noteq> Referee" "left_constitute (pc c' q)" for q
      using that a_wait(2,4) D(5) by (cases "q = p") (simp_all add: left_constitute_def)
  qed (use a_wait(4) D in \<open>simp_all add: teams_formed_def\<close>)
next
  case (a_end c1)
  note D = semDown_Some [OF a_end(3)]
  show ?thesis
  proof (rule team_inv_quiet [OF I])
    show "left_constitute (pc c q)" if "q \<noteq> Referee" "left_constitute (pc c' q)" for q
      using that a_end(2,4) D(5) by (cases "q = p") (simp_all add: left_constitute_def)
  qed (use a_end(4) D in \<open>simp_all add: teams_formed_def\<close>)
next
  case (a_pub c1 v l)
  note D = publish_counters [OF a_pub(2)]
  from publish_Some [OF a_pub(2)] have P: "pc c1 = pc c" "team c1 = team c"
    by blast+
  from a_pub(4) have l: "left_constitute l \<Longrightarrow> left_constitute (pc c p)"
    by (auto simp: left_constitute_def)
  show ?thesis
  proof (rule team_inv_quiet [OF I])
    show "left_constitute (pc c q)" if "q \<noteq> Referee" "left_constitute (pc c' q)" for q
      using that l a_pub(3) P by (cases "q = p") simp_all
  qed (use a_pub(3) D P in simp_all)
next
  case (a_const t c1)
  note D = constituteTeam_Some [OF a_const(4)]
  show ?thesis
  proof (cases "enough K (fSt c)")
    case True
    show ?thesis
      by (rule team_inv_leader [OF K I True, of _ p])
         (use a_const(5) D(1-3) D(5) [OF True] in simp_all)
  next
    case False
    show ?thesis
      by (rule team_inv_late [OF I False, of _ p])
         (use a_const(5) D(1-3) D(6) [OF False] in simp_all)
  qed
next
  case (r_mutex c1 l)
  note D = semDown_Some [OF r_mutex(2)]
  show ?thesis
    by (rule team_inv_quiet [OF I]) (use r_mutex(1,3) D in \<open>simp_all add: teams_formed_def\<close>)
next
  case (r_pub c1 v l)
  note D = publish_counters [OF r_pub(2)]
  from publish_Some [OF r_pub(2)] have P: "pc c1 = pc c" "team c1 = team c"
    by blast+
  show ?thesis
    by (rule team_inv_quiet [OF I]) (use r_pub(1,3) D P in simp_all)
next
  case r_poll
  show ?thesis
    by (rule team_inv_quiet [OF I]) (use r_poll in \<open>simp_all add: teams_formed_def\<close>)
next
  case r_start
  show ?thesis
    by (rule team_inv_quiet [OF I]) (use r_start in \<open>simp_all add: teams_formed_def\<close>)
next
  case r_end
  show ?thesis
    by (rule team_inv_quiet [OF I]) (use r_end in \<open>simp_all add: teams_formed_def\<close>)
qed

lemma team_inv_exec:
  assumes K: "config_ok K" "two_teams_only K"
  shows "team_inv K c \<Longrightarrow> team_inv K (exec K sched c)"
proof (induction sched arbitrary: c)
  case Nil
  then show ?case by simp
next
  case (Cons p ps)
  have "team_inv K (next_config K p c)"
    using Cons.prems K by (cases "step K p c") (simp_all add: next_config_def team_inv_step)
  then show ?case
    using Cons.IH by simp
qed


section \<open>Properties\<close>

subsection \<open>The leader branch of constituteTeam\<close>

text \<open>
  Where one of the three results of the leader branch does not fit a C \<open>int\<close>, the
  function has no defined result.
\<close>

lemma leader_branch_overflow:
  assumes "enough K (fSt c)"
    and "\<not> (c_int (teamId (fSt c) + 1) \<and> c_int (playersFree (fSt c) - NUMTEAMPLAYERS K) \<and>
            c_int (goaliesFree (fSt c) - NUMTEAMGOALIES K))"
  shows "constituteTeam K p c = None"
  using assms by (auto simp: constituteTeam_def Let_def enough_def)

text \<open>
  C3. When \<open>playersFree >= NUMTEAMPLAYERS\<close> and \<open>goaliesFree >= NUMTEAMGOALIES\<close> hold on
  entry to the critical section of \<open>playerConstituteTeam\<close> or \<open>goalieConstituteTeam\<close>
  (called with the id of a slot of the array, in a state where \<open>teamId + 1\<close> and the two
  differences fit a C \<open>int\<close>), the function returns the entry value of \<open>teamId\<close>,
  \<open>teamId\<close> is one more, \<open>playersFree\<close> is \<open>NUMTEAMPLAYERS\<close> less, \<open>goaliesFree\<close> is
  \<open>NUMTEAMGOALIES\<close> less, and the caller's own slot is FORMING_TEAM.
\<close>

theorem leader_branch:
  assumes "enough K (fSt c)"
    and "c_int (teamId (fSt c) + 1)"
    and "c_int (playersFree (fSt c) - NUMTEAMPLAYERS K)"
    and "c_int (goaliesFree (fSt c) - NUMTEAMGOALIES K)"
  shows "(in_range i (playerStat (st (fSt c))) \<longrightarrow>
           (\<exists>c'. playerConstituteTeam K i c = Some (teamId (fSt c), c') \<and>
              teamId (fSt c') = teamId (fSt c) + 1 \<and>
              playersFree (fSt c') = playersFree (fSt c) - NUMTEAMPLAYERS K \<and>
              goaliesFree (fSt c') = goaliesFree (fSt c) - NUMTEAMGOALIES K \<and>
              playerStat (st (fSt c')) ! nat i = FORMING_TEAM)) \<and>
         (in_range i (goalieStat (st (fSt c))) \<longrightarrow>
           (\<exists>c'. goalieConstituteTeam K i c = Some (teamId (fSt c), c') \<and>
              teamId (fSt c') = teamId (fSt c) + 1 \<and>
              playersFree (fSt c') = playersFree (fSt c) - NUMTEAMPLAYERS K \<and>
              goaliesFree (fSt c') = goaliesFree (fSt c) - NUMTEAMGOALIES K \<and>
              goalieStat (st (fSt c')) ! nat i = FORMING_TEAM))"
  using assms
  by (auto simp: playerConstituteTeam_def goalieConstituteTeam_def constituteTeam_def enough_def
        acts_def Let_def semUp_def saveState_def in_range_def)

theorem leader_branch_witness:
  "enough K_exact (fSt (init K_exact)) \<and>
   c_int (teamId (fSt (init K_exact)) + 1) \<and>
   c_int (playersFree (fSt (init K_exact)) - NUMTEAMPLAYERS K_exact) \<and>
   c_int (goaliesFree (fSt (init K_exact)) - NUMTEAMGOALIES K_exact) \<and>
   in_range 0 (playerStat (st (fSt (init K_exact)))) \<and>
   in_range 0 (goalieStat (st (fSt (init K_exact)))) \<and>
   (\<exists>c'. playerConstituteTeam K_exact 0 (init K_exact) = Some (1, c') \<and>
      teamId (fSt c') = 2 \<and> playersFree (fSt c') = 4 \<and> goaliesFree (fSt c') = 1 \<and>
      playerStat (st (fSt c')) ! 0 = FORMING_TEAM) \<and>
   (\<exists>c'. goalieConstituteTeam K_exact 0 (init K_exact) = Some (1, c') \<and>
      teamId (fSt c') = 2 \<and> playersFree (fSt c') = 4 \<and> goaliesFree (fSt c') = 1 \<and>
      goalieStat (st (fSt c')) ! 0 = FORMING_TEAM)"
proof -
  have e: "enough K_exact (fSt (init K_exact))"
    by (simp add: enough_def K_exact_def init_def)
  have o: "c_int (teamId (fSt (init K_exact)) + 1)"
    "c_int (playersFree (fSt (init K_exact)) - NUMTEAMPLAYERS K_exact)"
    "c_int (goaliesFree (fSt (init K_exact)) - NUMTEAMGOALIES K_exact)"
    by (simp_all add: c_int_def K_exact_def init_def)
  have rp: "in_range 0 (playerStat (st (fSt (init K_exact))))"
    by (simp add: in_range_def K_exact_def init_def)
  have rg: "in_range 0 (goalieStat (st (fSt (init K_exact))))"
    by (simp add: in_range_def K_exact_def init_def)
  from leader_branch [OF e o, of 0] rp rg e o show ?thesis
    by (simp add: init_def K_exact_def)
qed

subsection \<open>The other branch of constituteTeam\<close>

text \<open>
  Whenever the test of \<open>constituteTeam\<close> fails, whatever \<open>teamId\<close> is, the function
  writes LATE in the caller's slot and returns 0; it waits on no semaphore.
\<close>

lemma late_branch:
  assumes "\<not> enough K (fSt c)" and "constituteTeam K p c = Some (t, c')"
  shows "t = 0 \<and> own_slot p (fSt c') = LATE \<and> teamId (fSt c') = teamId (fSt c) \<and>
         playersFree (fSt c') = playersFree (fSt c) \<and> goaliesFree (fSt c') = goaliesFree (fSt c) \<and>
         sem c' = (sem c)(mutex := sem c mutex + 1)"
  using assms
  by (cases p)
     (auto simp: constituteTeam_def acts_def semUp_def saveState_def Let_def in_range_def
        split: if_splits)

text \<open>
  C1 (the code does otherwise). With 8 players and one goalie, player 0 forms team 1
  alone; player 1 then enters the critical section of \<open>playerConstituteTeam\<close> with
  \<open>playersFree = 4\<close>, \<open>goaliesFree = 0\<close> and \<open>teamId = 2 <= 2\<close>. The test fails, and the
  function returns 0 with the slot of player 1 set to LATE; \<open>goalieConstituteTeam\<close> does
  the same for goalie 0 in that state. Neither waits for a leader.
\<close>

theorem follower_marked_late:
  "playersFree (fSt (exec K_short sched_second (init K_short))) = 4 \<and>
   goaliesFree (fSt (exec K_short sched_second (init K_short))) = 0 \<and>
   teamId (fSt (exec K_short sched_second (init K_short))) = 2 \<and>
   pc (exec K_short sched_second (init K_short)) (Player 1) = ConstCS \<and>
   \<not> enough K_short (fSt (exec K_short sched_second (init K_short))) \<and>
   map_option (\<lambda>(t, c'). (t, playerStat (st (fSt c')) ! 1))
     (playerConstituteTeam K_short 1 (exec K_short sched_second (init K_short))) = Some (0, LATE) \<and>
   map_option (\<lambda>(t, c'). (t, goalieStat (st (fSt c')) ! 0))
     (goalieConstituteTeam K_short 0 (exec K_short sched_second (init K_short))) = Some (0, LATE)"
  by (simp add: sched_second_list model_defs K_short_def playerConstituteTeam_def
        goalieConstituteTeam_def)

subsection \<open>A whole run of the exact-fit scenario\<close>

text \<open>
  C2 (the code does otherwise). In the run \<open>sched_exact\<close> of scenario 1 (8 players, 2
  goalies) the first two players to enter \<open>constituteTeam\<close> each take the leader branch
  and use up the free counts; the other six players and both goalies are marked LATE.
  The referee posts one start and one end signal, so player 0 alone reaches ENDING_GAME,
  and player 1 stays in FORMING_TEAM, blocked on \<open>playersWaitReferee\<close>. At the end no
  process can take a step: the run is over with 8 actors LATE, not 0.
\<close>

theorem exact_fit_run:
  "playerStat (st (fSt (exec K_exact sched_exact (init K_exact)))) =
     [ENDING_GAME, FORMING_TEAM, LATE, LATE, LATE, LATE, LATE, LATE] \<and>
   goalieStat (st (fSt (exec K_exact sched_exact (init K_exact)))) = [LATE, LATE] \<and>
   teamId (fSt (exec K_exact sched_exact (init K_exact))) = 3 \<and>
   list_all (\<lambda>p. step K_exact p (exec K_exact sched_exact (init K_exact)) = None)
     (Referee # actors K_exact)"
proof -
  define final where
    "final = (\<lambda>c. playerStat (st (fSt c)) =
                 [ENDING_GAME, FORMING_TEAM, LATE, LATE, LATE, LATE, LATE, LATE] \<and>
               goalieStat (st (fSt c)) = [LATE, LATE] \<and> teamId (fSt c) = 3 \<and>
               list_all (\<lambda>p. step K_exact p c = None) (Referee # actors K_exact))"
  have "final (exec K_exact sched_exact (init K_exact))"
    apply (simp add: sched_exact_list model_defs K_exact_def)
    apply (simp add: final_def model_defs K_exact_def actors_def numeral_eq_Suc upt_rec)
    done
  then show ?thesis
    unfolding final_def .
qed

subsection \<open>The signals of the referee\<close>

text \<open>
  From any state, \<open>startGame\<close> run without interruption posts \<open>playersWaitReferee\<close>
  once, and \<open>endGame\<close> posts \<open>playersWaitEnd\<close> once.
\<close>

lemma startGame_posts_once:
  assumes "pc c Referee = RStartDown" and "0 < sem c mutex"
  shows "sem (exec K [Referee, Referee, Referee] c) playersWaitReferee =
           sem c playersWaitReferee + 1 \<and>
         pc (exec K [Referee, Referee, Referee] c) Referee = RPlayDown"
  using assms by (simp add: model_defs)

lemma endGame_posts_once:
  assumes "pc c Referee = REndDown" and "0 < sem c mutex"
  shows "sem (exec K [Referee, Referee, Referee] c) playersWaitEnd = sem c playersWaitEnd + 1 \<and>
         pc (exec K [Referee, Referee, Referee] c) Referee = Finished"
  using assms by (simp add: model_defs)

text \<open>
  C4 (the code does otherwise). In scenario 1, once two teams are formed the referee
  runs \<open>startGame\<close> (three steps from \<open>RStartDown\<close>): \<open>playersWaitReferee\<close> goes from 0 to
  1, one post, where 2 * (4 + 1) = 10 teammates are to be woken. \<open>endGame\<close> (three steps
  from \<open>REndDown\<close>) takes \<open>playersWaitEnd\<close> from 0 to 1.
\<close>

theorem startGame_single_post:
  "pc (exec K_exact sched_ready (init K_exact)) Referee = RStartDown \<and>
   sem (exec K_exact sched_ready (init K_exact)) playersWaitReferee = 0 \<and>
   pc (exec K_exact (sched_ready @ replicate 3 Referee) (init K_exact)) Referee = RPlayDown \<and>
   sem (exec K_exact (sched_ready @ replicate 3 Referee) (init K_exact)) playersWaitReferee = 1 \<and>
   pc (exec K_exact (sched_ready @ replicate 5 Referee) (init K_exact)) Referee = REndDown \<and>
   sem (exec K_exact (sched_ready @ replicate 5 Referee) (init K_exact)) playersWaitEnd = 0 \<and>
   pc (exec K_exact (sched_ready @ replicate 8 Referee) (init K_exact)) Referee = Finished \<and>
   sem (exec K_exact (sched_ready @ replicate 8 Referee) (init K_exact)) playersWaitEnd = 1 \<and>
   2 * (NUMTEAMPLAYERS K_exact + NUMTEAMGOALIES K_exact) = 10"
  by (simp add: sched_ready_list numeral_eq_Suc model_defs K_exact_def)

subsection \<open>The mutex discipline\<close>

text \<open>
  C7 (the code does otherwise). The referee runs \<open>arrive\<close> and \<open>waitForTeams\<close> up to the
  first test of its loop. The last five actions of the history are those of
  \<open>waitForTeams\<close>: the critical section, closed by the \<open>semUp\<close> on the mutex, and then the
  read of \<open>teamId\<close> by the loop, made without the mutex. The history does not keep the
  mutex discipline. (Lemma \<open>only_the_poll_is_unguarded\<close>: every other access of every
  run is made with the mutex held.)
\<close>

theorem referee_polls_without_mutex:
  "drop 4 (evs (exec K_exact sched_poll (init K_exact))) =
     [(Referee, SemDown mutex), (Referee, Wr V_refereeStat), (Referee, Rd V_fSt),
      (Referee, SemUp mutex), (Referee, Rd V_teamId)] \<and>
   \<not> guarded (\<lambda>p. False) (evs (exec K_exact sched_poll (init K_exact)))"
  by (simp add: sched_poll_list model_defs K_exact_def)

subsection \<open>The range check of the identity\<close>

text \<open>
  What \<open>main\<close> accepts: four arguments, a string that \<open>strtol\<close> converts to its end, and
  a converted number below the population, as a signed comparison.
\<close>

lemma playerMain_accepts:
  "playerMain K argc v rest = Inr n \<longleftrightarrow>
     argc = 4 \<and> rest = [] \<and> n = sint (word_of_int v :: 32 word) \<and> n < NUMPLAYERS K"
  by (auto simp: playerMain_def Let_def)

lemma goalieMain_accepts:
  "goalieMain K argc v rest = Inr n \<longleftrightarrow>
     argc = 4 \<and> rest = [] \<and> n = sint (word_of_int v :: 32 word) \<and> n < NUMGOALIES K"
  by (auto simp: goalieMain_def Let_def)

text \<open>Every negative identity that fits an \<open>int\<close> passes the check.\<close>

lemma negative_ids_pass:
  assumes "- 2147483648 \<le> v" and "v < 0" and "0 \<le> NUMPLAYERS K" and "0 \<le> NUMGOALIES K"
  shows "playerMain K 4 v [] = Inr v \<and> goalieMain K 4 v [] = Inr v"
proof -
  have "sint (word_of_int v :: 32 word) = v"
    using assms(1,2) by (simp add: sint_sbintrunc' signed_take_bit_int_eq_self)
  with assms show ?thesis
    by (simp add: playerMain_def goalieMain_def)
qed

text \<open>
  C9 (the code does otherwise). For \<open>argv[1] = "-1"\<close>, which \<open>strtol\<close> converts to -1 with
  nothing left over, the check of the player and of the goalie accepts the identity -1:
  \<open>n\<close> is an \<open>int\<close>, so \<open>n >= NUMPLAYERS\<close> is false for a negative \<open>n\<close>. The identity is
  outside the slot array, and the first statement that uses it, the write of \<open>arrive\<close>,
  has no defined behaviour.
\<close>

theorem negative_id_accepted:
  "playerMain K_exact 4 (- 1) [] = Inr (- 1) \<and>
   goalieMain K_exact 4 (- 1) [] = Inr (- 1) \<and>
   \<not> in_range (- 1) (playerStat (st (fSt (init K_exact)))) \<and>
   \<not> in_range (- 1) (goalieStat (st (fSt (init K_exact)))) \<and>
   map_option fSt (publish (Player (- 1)) ARRIVING (init K_exact)) = None \<and>
   map_option fSt (publish (Goalie (- 1)) ARRIVING (init K_exact)) = None"
  by (simp add: playerMain_def goalieMain_def model_defs K_exact_def)

subsection \<open>The frame of arrive, waitReferee and playUntilEnd\<close>

lemma actorStep_shapes:
  assumes "actorStep K p c = Some c'"
    and "in_arrive (pc c p) \<or> in_waitReferee (pc c p) \<or> in_playUntilEnd (pc c p)"
  shows "(\<exists>s l c1. semDown p s c = Some c1 \<and> c' = goto p l c1) \<or>
         (\<exists>v l c1. publish p v c = Some c1 \<and> c' = goto p l c1)"
  using assms unfolding in_arrive_def in_waitReferee_def in_playUntilEnd_def
  by (elim disjE; fastforce simp: actorStep_def)

text \<open>
  C10. Every step of a player or a goalie inside \<open>arrive\<close>, \<open>waitReferee\<close> or
  \<open>playUntilEnd\<close> leaves \<open>playersFree\<close>, \<open>goaliesFree\<close>, \<open>teamId\<close>, the referee's slot and
  the slot of every other player and goalie as they were: only the slot of the process
  itself can change.
\<close>

theorem publishing_ops_frame:
  assumes "step K p c = Some c'" and "p \<noteq> Referee"
    and "in_arrive (pc c p) \<or> in_waitReferee (pc c p) \<or> in_playUntilEnd (pc c p)"
  shows "playersFree (fSt c') = playersFree (fSt c) \<and>
         goaliesFree (fSt c') = goaliesFree (fSt c) \<and>
         teamId (fSt c') = teamId (fSt c) \<and>
         refereeStat (st (fSt c')) = refereeStat (st (fSt c)) \<and>
         length (playerStat (st (fSt c'))) = length (playerStat (st (fSt c))) \<and>
         length (goalieStat (st (fSt c'))) = length (goalieStat (st (fSt c))) \<and>
         (\<forall>j. p \<noteq> Player (int j) \<longrightarrow> playerStat (st (fSt c')) ! j = playerStat (st (fSt c)) ! j) \<and>
         (\<forall>j. p \<noteq> Goalie (int j) \<longrightarrow> goalieStat (st (fSt c')) ! j = goalieStat (st (fSt c)) ! j)"
proof -
  from assms(1,2) have "actorStep K p c = Some c'"
    by (cases p) (auto simp: step_def split: if_splits)
  from actorStep_shapes [OF this assms(3)] show ?thesis
  proof (elim disjE exE conjE)
    fix s l c1
    assume "semDown p s c = Some c1" and "c' = goto p l c1"
    then show ?thesis
      by (simp add: semDown_Some)
  next
    fix v l c1
    assume "publish p v c = Some c1" and c': "c' = goto p l c1"
    then obtain c0 where "setStat p v c = Some c0" and "fSt c1 = fSt c0"
      by (auto dest: publish_Some)
    with c' assms(2) show ?thesis
      by (simp add: setStat_Some setStat_slots)
  qed
qed


theorem publishing_ops_frame_witness:
  "in_waitReferee (pc (exec K_exact sched_kickoff (init K_exact)) (Player 0)) \<and>
   (\<exists>c'. step K_exact (Player 0) (exec K_exact sched_kickoff (init K_exact)) = Some c' \<and>
      playerStat (st (fSt c')) ! 0 = PLAYING \<and>
      playersFree (fSt c') = 0 \<and> goaliesFree (fSt c') = 0 \<and> teamId (fSt c') = 3 \<and>
      refereeStat (st (fSt c')) = STARTING_GAME \<and>
      playerStat (st (fSt c')) ! 1 = FORMING_TEAM \<and> goalieStat (st (fSt c')) ! 0 = ARRIVING)"
proof -
  define c where "c = exec K_exact sched_kickoff (init K_exact)"
  define before where
    "before = (\<lambda>c. pc c (Player 0) = WaitRefCS \<and>
        map_option (\<lambda>c'. playerStat (st (fSt c')) ! 0) (step K_exact (Player 0) c) = Some PLAYING \<and>
        playersFree (fSt c) = 0 \<and> goaliesFree (fSt c) = 0 \<and> teamId (fSt c) = 3 \<and>
        refereeStat (st (fSt c)) = STARTING_GAME \<and>
        playerStat (st (fSt c)) ! 1 = FORMING_TEAM \<and> goalieStat (st (fSt c)) ! 0 = ARRIVING)"
  have "before c"
    unfolding c_def
    apply (simp add: sched_kickoff_list model_defs K_exact_def)
    apply (simp add: before_def model_defs K_exact_def)
    done
  then have b: "pc c (Player 0) = WaitRefCS"
      "map_option (\<lambda>c'. playerStat (st (fSt c')) ! 0) (step K_exact (Player 0) c) = Some PLAYING"
      "playersFree (fSt c) = 0" "goaliesFree (fSt c) = 0" "teamId (fSt c) = 3"
      "refereeStat (st (fSt c)) = STARTING_GAME"
      "playerStat (st (fSt c)) ! 1 = FORMING_TEAM" "goalieStat (st (fSt c)) ! 0 = ARRIVING"
    unfolding before_def by blast+
  from b(2) obtain c' where s: "step K_exact (Player 0) c = Some c'"
      and own: "playerStat (st (fSt c')) ! 0 = PLAYING"
    by auto
  have w: "in_arrive (pc c (Player 0)) \<or> in_waitReferee (pc c (Player 0)) \<or>
           in_playUntilEnd (pc c (Player 0))"
    by (simp add: b(1) in_waitReferee_def)
  from publishing_ops_frame [OF s _ w] have
    "playersFree (fSt c') = playersFree (fSt c) \<and> goaliesFree (fSt c') = goaliesFree (fSt c) \<and>
     teamId (fSt c') = teamId (fSt c) \<and> refereeStat (st (fSt c')) = refereeStat (st (fSt c)) \<and>
     playerStat (st (fSt c')) ! 1 = playerStat (st (fSt c)) ! 1 \<and>
     goalieStat (st (fSt c')) ! 0 = goalieStat (st (fSt c)) ! 0"
    by (auto dest: spec [of _ 1] spec [of _ 0])
  with b s own show ?thesis
    unfolding c_def [symmetric] by (simp add: in_waitReferee_def)
qed

subsection \<open>The free counts and the number of teams formed\<close>

text \<open>
  C6. In every state of every run, \<open>playersFree + NUMTEAMPLAYERS * teams_formed =
  NUMPLAYERS\<close> and \<open>goaliesFree + NUMTEAMGOALIES * teams_formed = NUMGOALIES\<close>, where
  \<open>teams_formed\<close> counts the leader branches taken so far; and a step of any process from
  any state \<open>c\<close> leaves both sums as they were. (The states of the model are the states
  between critical sections.)
\<close>

theorem free_counts_invariant:
  "playersFree (fSt (exec K sched (init K))) +
       NUMTEAMPLAYERS K * int (teams_formed (exec K sched (init K))) = NUMPLAYERS K \<and>
   goaliesFree (fSt (exec K sched (init K))) +
       NUMTEAMGOALIES K * int (teams_formed (exec K sched (init K))) = NUMGOALIES K \<and>
   playersFree (fSt (next_config K p c)) + NUMTEAMPLAYERS K * int (teams_formed (next_config K p c))
     = playersFree (fSt c) + NUMTEAMPLAYERS K * int (teams_formed c) \<and>
   goaliesFree (fSt (next_config K p c)) + NUMTEAMGOALIES K * int (teams_formed (next_config K p c))
     = goaliesFree (fSt c) + NUMTEAMGOALIES K * int (teams_formed c)"
proof -
  have keep: "playersFree (fSt (next_config K q d)) + NUMTEAMPLAYERS K * int (teams_formed (next_config K q d))
        = playersFree (fSt d) + NUMTEAMPLAYERS K * int (teams_formed d) \<and>
      goaliesFree (fSt (next_config K q d)) + NUMTEAMGOALIES K * int (teams_formed (next_config K q d))
        = goaliesFree (fSt d) + NUMTEAMGOALIES K * int (teams_formed d)" for q d
    using next_config_counters [of K q d] by (auto simp: algebra_simps)
  have run: "playersFree (fSt (exec K sched d)) + NUMTEAMPLAYERS K * int (teams_formed (exec K sched d))
        = playersFree (fSt d) + NUMTEAMPLAYERS K * int (teams_formed d) \<and>
      goaliesFree (fSt (exec K sched d)) + NUMTEAMGOALIES K * int (teams_formed (exec K sched d))
        = goaliesFree (fSt d) + NUMTEAMGOALIES K * int (teams_formed d)" for d
  proof (induction sched arbitrary: d)
    case Nil
    show ?case by simp
  next
    case (Cons q qs)
    from Cons.IH [of "next_config K q d"] keep [of q d] show ?case by simp
  qed
  have start: "playersFree (fSt (init K)) = NUMPLAYERS K \<and> goaliesFree (fSt (init K)) = NUMGOALIES K \<and>
      teams_formed (init K) = 0"
    by (simp add: init_def teams_formed_def)
  from run [of "init K"] start keep [of p c] show ?thesis by simp
qed

theorem free_counts_invariant_witness:
  "playersFree (fSt (exec K_exact sched_ready (init K_exact))) = 0 \<and>
   goaliesFree (fSt (exec K_exact sched_ready (init K_exact))) = 0 \<and>
   teams_formed (exec K_exact sched_ready (init K_exact)) = 2 \<and>
   NUMTEAMPLAYERS K_exact = 4 \<and> NUMPLAYERS K_exact = 8 \<and>
   NUMTEAMGOALIES K_exact = 1 \<and> NUMGOALIES K_exact = 2"
proof -
  have t: "teams_formed (exec K_exact sched_ready (init K_exact)) = 2"
    by (simp add: sched_ready_list model_defs K_exact_def teams_formed_def)
  have k: "NUMTEAMPLAYERS K_exact = 4 \<and> NUMPLAYERS K_exact = 8 \<and>
           NUMTEAMGOALIES K_exact = 1 \<and> NUMGOALIES K_exact = 2"
    by (simp add: K_exact_def)
  from free_counts_invariant [of K_exact sched_ready "Player 0" "init K_exact"] t k
  show ?thesis by simp
qed

subsection \<open>STARTING_GAME is logged before anybody is PLAYING\<close>

text \<open>
  C8. In the log of every run, every record that shows a player or goalie in PLAYING
  comes strictly after a record that shows the referee in STARTING_GAME: a player or
  goalie writes PLAYING only after its \<open>semDown\<close> on \<open>playersWaitReferee\<close>, which the
  referee posts after the critical section of \<open>startGame\<close>.
\<close>

theorem start_logged_before_playing:
  "\<forall>i<length (logf (exec K sched (init K))).
      playing_record (logf (exec K sched (init K)) ! i) \<longrightarrow>
      (\<exists>j<i. starting_record (logf (exec K sched (init K)) ! j))"
proof -
  have "start_inv (exec K sched (init K))"
    using start_inv_init by (rule start_inv_exec)
  then have "log_ordered (logf (exec K sched (init K)))"
    by (rule start_invD(5))
  then show ?thesis
    unfolding log_ordered_def .
qed

theorem start_logged_before_playing_witness:
  "length (logf (exec K_exact (sched_kickoff @ [Player 0]) (init K_exact))) = 8 \<and>
   playing_record (logf (exec K_exact (sched_kickoff @ [Player 0]) (init K_exact)) ! 7) \<and>
   starting_record (logf (exec K_exact (sched_kickoff @ [Player 0]) (init K_exact)) ! 6) \<and>
   (\<exists>j<7. starting_record (logf (exec K_exact (sched_kickoff @ [Player 0]) (init K_exact)) ! j))"
proof -
  define l where "l = logf (exec K_exact (sched_kickoff @ [Player 0]) (init K_exact))"
  define shape where
    "shape = (\<lambda>l. length l = 8 \<and> playing_record (l ! 7) \<and> starting_record (l ! 6))"
  have "shape l"
    unfolding l_def
    apply (simp add: sched_kickoff_list model_defs K_exact_def)
    apply (simp add: shape_def playing_record_def starting_record_def numeral_eq_Suc)
    done
  then have s: "length l = 8" "playing_record (l ! 7)" "starting_record (l ! 6)"
    unfolding shape_def by blast+
  from start_logged_before_playing [of K_exact "sched_kickoff @ [Player 0]"] s(1,2)
  have "\<exists>j<7. starting_record (l ! j)"
    unfolding l_def by simp
  with s show ?thesis
    unfolding l_def by blast
qed

subsection \<open>The range of teamId\<close>

text \<open>In every state of every run, \<open>teamId\<close> is one more than the number of teams formed.\<close>

lemma teamId_counts_teams:
  "teamId (fSt (exec K sched (init K))) = 1 + int (teams_formed (exec K sched (init K)))"
proof -
  have keep: "teamId (fSt (next_config K q d)) - int (teams_formed (next_config K q d))
        = teamId (fSt d) - int (teams_formed d)" for q d
    using next_config_counters [of K q d] by auto
  have run: "teamId (fSt (exec K sched d)) - int (teams_formed (exec K sched d))
        = teamId (fSt d) - int (teams_formed d)" for d
  proof (induction sched arbitrary: d)
    case Nil
    show ?case by simp
  next
    case (Cons q qs)
    from Cons.IH [of "next_config K q d"] keep [of q d] show ?case by simp
  qed
  have "teamId (fSt (init K)) = 1 \<and> teams_formed (init K) = 0"
    by (simp add: init_def teams_formed_def)
  with run [of "init K"] show ?thesis by simp
qed

text \<open>
  Where the populations satisfy the configuration constraints and cannot fill a third
  team (\<open>NUMPLAYERS < 3 * NUMTEAMPLAYERS\<close> or \<open>NUMGOALIES < 3 * NUMTEAMGOALIES\<close>), \<open>teamId\<close> is
  1, 2 or 3 in every state of every run, and it is 3 once every player and goalie has
  returned from \<open>constituteTeam\<close>.
\<close>

lemma teamId_at_most_three:
  assumes "config_ok K" and "two_teams_only K"
  shows "teamId (fSt (exec K sched (init K))) \<in> {1, 2, 3} \<and>
         ((\<forall>p\<in>set (actors K). left_constitute (pc (exec K sched (init K)) p)) \<longrightarrow>
            teamId (fSt (exec K sched (init K))) = 3)"
proof -
  define c where "c = exec K sched (init K)"
  have I: "team_inv K c"
    unfolding c_def using assms team_inv_init by (rule team_inv_exec)
  then have i: "teamId (fSt c) = 1 + int (teams_formed c)"
      "playersFree (fSt c) = NUMPLAYERS K - NUMTEAMPLAYERS K * int (teams_formed c)"
      "goaliesFree (fSt c) = NUMGOALIES K - NUMTEAMGOALIES K * int (teams_formed c)"
      "teams_formed c \<le> 2"
      "\<And>q. team c q \<noteq> 0 \<Longrightarrow> 1 \<le> team c q \<and> team c q < teamId (fSt c)"
      "\<And>q r. team c q = team c r \<Longrightarrow> team c q \<noteq> 0 \<Longrightarrow> q = r"
      "\<And>q. q \<noteq> Referee \<Longrightarrow> left_constitute (pc c q) \<Longrightarrow> team c q = 0 \<Longrightarrow> \<not> enough K (fSt c)"
    unfolding team_inv_def by blast+
  have range: "teamId (fSt c) \<in> {1, 2, 3}"
    using i(1,4) by auto
  have final: "teamId (fSt c) = 3" if all: "\<forall>p\<in>set (actors K). left_constitute (pc c p)"
  proof (rule ccontr)
    assume "teamId (fSt c) \<noteq> 3"
    with i(1,4) have k: "teams_formed c = 0 \<or> teams_formed c = 1"
      by auto
    from assms(1) have two: "2 \<le> NUMPLAYERS K"
      by (simp add: config_ok_def)
    then have mem: "Player 0 \<in> set (actors K)" "Player 1 \<in> set (actors K)"
      by (auto simp: actors_def image_iff intro: bexI [of _ 0] bexI [of _ 1])
    from k i(2,3) assms(1) have e: "enough K (fSt c)"
      by (auto simp: enough_def config_ok_def)
    from all mem have l: "left_constitute (pc c (Player 0))" "left_constitute (pc c (Player 1))"
      by blast+
    from i(7) [of "Player 0"] i(7) [of "Player 1"] l e
    have n: "team c (Player 0) \<noteq> 0" "team c (Player 1) \<noteq> 0"
      by auto
    from i(5) [OF n(1)] i(5) [OF n(2)] i(1) k have "team c (Player 0) = team c (Player 1)"
      by auto
    from i(6) [OF this n(1)] show False
      by simp
  qed
  from range final show ?thesis
    unfolding c_def by blast
qed

text \<open>
  C5 (the code does otherwise). The leader branch is guarded by the free counts alone;
  nothing tests \<open>teamId\<close>. With 12 players and 3 goalies (teams of 4 and 1, within the
  configuration constraints), players 0, 1 and 2 run \<open>arrive\<close> and \<open>constituteTeam\<close> one
  after the other and each takes the leader branch: three teams are formed, \<open>teamId\<close> is
  4, and player 2 comes back with team 3 and goes on to \<open>waitReferee\<close>.
\<close>

theorem teamId_above_three:
  "config_ok K_three \<and>
   teamId (fSt (exec K_three sched_three (init K_three))) = 4 \<and>
   teams_formed (exec K_three sched_three (init K_three)) = 3 \<and>
   team (exec K_three sched_three (init K_three)) (Player 2) = 3 \<and>
   pc (exec K_three sched_three (init K_three)) (Player 2) = WaitRefSem"
  by (simp add: sched_three_list model_defs K_three_def config_ok_def teams_formed_def)

end
